theory Spec2Isabelle
  imports Main "HOL-Library.Sublist"
begin

section \<open>Python strings\<close>

text \<open>
  A Python \<open>str\<close> is modelled as \<open>string\<close>; a \<open>char\<close> stands for the code point of
  the same number (0 to 255).  The line feed is code point 10.
\<close>

definition NL :: char where
  "NL = CHR 0x0A"

text \<open>
  \<open>str.isspace\<close> on one code point below 256: tab to carriage return (9 to 13), the
  separators 28 to 31, the space, NEL (0x85) and the no-break space (0xA0).
\<close>

definition is_space :: "char \<Rightarrow> bool" where
  "is_space c = (let n = (of_char c :: nat) in
     (9 \<le> n \<and> n \<le> 13) \<or> (28 \<le> n \<and> n \<le> 32) \<or> n = 133 \<or> n = 160)"

text \<open>\<open>s.lstrip()\<close>, \<open>s.rstrip()\<close>, \<open>s.strip()\<close> and \<open>s.lstrip(">")\<close>.\<close>

definition lstrip :: "string \<Rightarrow> string" where
  "lstrip s = dropWhile is_space s"

definition rstrip :: "string \<Rightarrow> string" where
  "rstrip s = rev (dropWhile is_space (rev s))"

definition strip :: "string \<Rightarrow> string" where
  "strip s = lstrip (rstrip s)"

definition lstrip_chars :: "string \<Rightarrow> string \<Rightarrow> string" where
  "lstrip_chars chars s = dropWhile (\<lambda>c. c \<in> set chars) s"

text \<open>
  \<open>split_first sep s\<close> finds the leftmost occurrence of \<open>sep\<close> in \<open>s\<close> and returns the
  text in front of it and the text behind it: \<open>s.split(sep, 1)\<close> has two elements exactly
  when this is \<open>Some\<close>.
\<close>

fun split_first :: "string \<Rightarrow> string \<Rightarrow> (string \<times> string) option" where
  "split_first sep [] = (if sep = [] then Some ([], []) else None)"
| "split_first sep (c # cs) =
     (if prefix sep (c # cs) then Some ([], drop (length sep) (c # cs))
      else (case split_first sep cs of
              None \<Rightarrow> None
            | Some (a, b) \<Rightarrow> Some (c # a, b)))"

lemma split_first_Some: "split_first sep s = Some (a, b) \<Longrightarrow> s = a @ sep @ b"
proof (induction s arbitrary: a)
  case Nil
  then show ?case by (simp split: if_splits)
next
  case (Cons c cs)
  show ?case
  proof (cases "prefix sep (c # cs)")
    case True
    with Cons.prems have "a = []" and "b = drop (length sep) (c # cs)" by simp_all
    moreover from True have "c # cs = sep @ drop (length sep) (c # cs)"
      by (metis append_eq_conv_conj prefix_def)
    ultimately show ?thesis by simp
  next
    case False
    with Cons.prems obtain a' where s: "split_first sep cs = Some (a', b)" and a: "a = c # a'"
      by (auto split: option.splits)
    from Cons.IH [OF s] a show ?thesis by simp
  qed
qed

lemma split_first_shorter:
  "sep \<noteq> [] \<Longrightarrow> split_first sep s = Some (a, b) \<Longrightarrow> length b < length s"
proof -
  assume ne: "sep \<noteq> []" and sp: "split_first sep s = Some (a, b)"
  from split_first_Some [OF sp] have "length s = length a + length sep + length b"
    by simp
  with ne show ?thesis by (cases sep) simp_all
qed

text \<open>
  \<open>s.split(sep)\<close> for a non-empty separator: the sections between the non-overlapping
  occurrences of \<open>sep\<close>, found from the left.  Python raises on the empty separator; the
  callers below either pass a literal or check for it first.
\<close>

function split_sections :: "string \<Rightarrow> string \<Rightarrow> string list" where
  "split_sections sep s =
     (if sep = [] then [s]
      else (case split_first sep s of
              None \<Rightarrow> [s]
            | Some (a, b) \<Rightarrow> a # split_sections sep b))"
  by pat_completeness auto
termination
  by (relation "measure (\<lambda>(sep, s). length s)") (auto simp: split_first_shorter)

declare split_sections.simps [simp del]

section \<open>Block segmentation\<close>

text \<open>
  The loop of \<open>markdown_to_blocks\<close>: a fragment equal to the empty string is skipped,
  any other fragment is stripped and appended.
\<close>

fun filter_blocks :: "string list \<Rightarrow> string list" where
  "filter_blocks [] = []"
| "filter_blocks (block # blocks) =
     (if block = [] then filter_blocks blocks
      else strip block # filter_blocks blocks)"

definition markdown_to_blocks :: "string \<Rightarrow> string list" where
  "markdown_to_blocks markdown = filter_blocks (split_sections [NL, NL] markdown)"

section \<open>Spans\<close>

text \<open>
  Modelled from the spec: the span holder \<open>TextNode(text, text_type, url=None)\<close> and the
  enum \<open>TextType\<close> of textnode.py, which is not among the sources; the six members are
  the ones inline_markdown.py names.  The field \<open>text\<close> is called \<open>node_text\<close> here.
\<close>

datatype TextType = TEXT | BOLD | ITALIC | CODE | IMAGE | LINK

datatype TextNode = TextNode (node_text: string) (text_type: TextType) (url: "string option")

text \<open>The exceptions the module raises, with their messages.\<close>

datatype error = ValueError string | IndexError string

section \<open>The delimiter pass\<close>

text \<open>
  The inner loop \<open>for i in range(len(sections))\<close> of \<open>split_nodes_delimiter\<close>, started
  at index \<open>i\<close>.
\<close>

fun delimiter_spans :: "nat \<Rightarrow> string list \<Rightarrow> TextType \<Rightarrow> TextNode list" where
  "delimiter_spans i [] tt = []"
| "delimiter_spans i (sec # secs) tt =
     (if sec = [] then delimiter_spans (i + 1) secs tt
      else if i mod 2 = 0 then TextNode sec TEXT None # delimiter_spans (i + 1) secs tt
      else TextNode sec tt None # delimiter_spans (i + 1) secs tt)"

fun split_nodes_delimiter :: "TextNode list \<Rightarrow> string \<Rightarrow> TextType \<Rightarrow> error + TextNode list" where
  "split_nodes_delimiter [] delimiter tt = Inr []"
| "split_nodes_delimiter (old_node # old_nodes) delimiter tt =
     (if text_type old_node \<noteq> TEXT then
        (case split_nodes_delimiter old_nodes delimiter tt of
           Inl e \<Rightarrow> Inl e
         | Inr new_nodes \<Rightarrow> Inr (old_node # new_nodes))
      else if delimiter = [] then Inl (ValueError ''empty separator'')
      else
        (let sections = split_sections delimiter (node_text old_node) in
         if length sections mod 2 = 0
         then Inl (ValueError ''invalid markdown, formatted section not closed'')
         else
           (case split_nodes_delimiter old_nodes delimiter tt of
              Inl e \<Rightarrow> Inl e
            | Inr new_nodes \<Rightarrow> Inr (delimiter_spans 0 sections tt @ new_nodes))))"

section \<open>Images and links\<close>

text \<open>
  The pattern \<open>\[([^\[\]]*)\]\(([^\(\)]*)\)\<close> matched at the start of a string: the two
  groups and the text behind the match.  Each starred class excludes the character that
  must follow it, so only the longest run can be followed by a match and backtracking
  finds nothing else.
\<close>

definition match_link_body :: "string \<Rightarrow> (string \<times> string \<times> string) option" where
  "match_link_body s =
     (case s of
        [] \<Rightarrow> None
      | c # r \<Rightarrow>
          if c \<noteq> CHR ''['' then None
          else
            (let g1 = takeWhile (\<lambda>x. x \<noteq> CHR ''['' \<and> x \<noteq> CHR '']'') r;
                 r1 = dropWhile (\<lambda>x. x \<noteq> CHR ''['' \<and> x \<noteq> CHR '']'') r
             in if \<not> prefix ''](''  r1 then None
                else
                  (let r2 = drop 2 r1;
                       g2 = takeWhile (\<lambda>x. x \<noteq> CHR ''('' \<and> x \<noteq> CHR '')'') r2;
                       r3 = dropWhile (\<lambda>x. x \<noteq> CHR ''('' \<and> x \<noteq> CHR '')'') r2
                   in (case r3 of
                         [] \<Rightarrow> None
                       | d # r4 \<Rightarrow> if d = CHR '')'' then Some (g1, g2, r4) else None))))"

text \<open>The image pattern is the same with a leading \<open>!\<close>.\<close>

definition match_image :: "string \<Rightarrow> (string \<times> string \<times> string) option" where
  "match_image s =
     (case s of
        [] \<Rightarrow> None
      | c # r \<Rightarrow> if c = CHR ''!'' then match_link_body r else None)"

lemma match_link_body_Some:
  "match_link_body s = Some (g1, g2, r) \<Longrightarrow> s = ''['' @ g1 @ ''](''  @ g2 @ '')'' @ r"
proof -
  assume m: "match_link_body s = Some (g1, g2, r)"
  let ?P = "\<lambda>x. x \<noteq> CHR ''['' \<and> x \<noteq> CHR '']''"
  let ?Q = "\<lambda>x. x \<noteq> CHR ''('' \<and> x \<noteq> CHR '')''"
  from m obtain t where s: "s = CHR ''['' # t"
    by (cases s) (auto simp: match_link_body_def split: if_splits)
  from m s have p: "prefix ''](''  (dropWhile ?P t)"
    by (auto simp: match_link_body_def Let_def split: if_splits)
  then obtain r2 where r2: "dropWhile ?P t = ''](''  @ r2"
    by (auto simp: prefix_def)
  from m s p r2 have g1: "g1 = takeWhile ?P t"
    and g2: "g2 = takeWhile ?Q r2"
    and r3: "dropWhile ?Q r2 = CHR '')'' # r"
    by (auto simp: match_link_body_def Let_def split: if_splits list.splits)
  have "t = takeWhile ?P t @ dropWhile ?P t" by simp
  also have "\<dots> = g1 @ ''](''  @ r2" using g1 r2 by simp
  also have "r2 = takeWhile ?Q r2 @ dropWhile ?Q r2" by simp
  finally show ?thesis using s g2 r3 by simp
qed

lemma match_link_body_shorter:
  "match_link_body s = Some (g1, g2, r) \<Longrightarrow> length r < length s"
  by (drule match_link_body_Some) simp

lemma match_image_Some:
  "match_image s = Some (g1, g2, r) \<Longrightarrow> s = ''!['' @ g1 @ ''](''  @ g2 @ '')'' @ r"
  by (cases s) (auto simp: match_image_def split: if_splits dest: match_link_body_Some)

lemma match_image_shorter:
  "match_image s = Some (g1, g2, r) \<Longrightarrow> length r < length s"
  by (drule match_image_Some) simp

text \<open>
  \<open>re.findall\<close> with the image pattern: try a match at the current position; when it
  matches go on behind the match, otherwise one character further.
\<close>

function extract_markdown_images :: "string \<Rightarrow> (string \<times> string) list" where
  "extract_markdown_images [] = []"
| "extract_markdown_images (c # cs) =
     (case match_image (c # cs) of
        Some (g1, g2, r) \<Rightarrow> (g1, g2) # extract_markdown_images r
      | None \<Rightarrow> extract_markdown_images cs)"
  by pat_completeness auto
termination
  by (relation "measure length") (auto dest: match_image_shorter)

text \<open>
  \<open>re.findall\<close> with the link pattern, whose lookbehind \<open>(?<!!)\<close> reads the character
  in front of the current position:\<open>prev\<close> is that character, \<open>None\<close> at the start of the
  text.  After a match it is the closing parenthesis.
\<close>

function links_from :: "char option \<Rightarrow> string \<Rightarrow> (string \<times> string) list" where
  "links_from prev [] = []"
| "links_from prev (c # cs) =
     (if prev = Some CHR ''!'' then links_from (Some c) cs
      else
        (case match_link_body (c # cs) of
           Some (g1, g2, r) \<Rightarrow> (g1, g2) # links_from (Some CHR '')'') r
         | None \<Rightarrow> links_from (Some c) cs))"
  by pat_completeness auto
termination
  by (relation "measure (\<lambda>(prev, s). length s)") (auto dest: match_link_body_shorter)

definition extract_markdown_links :: "string \<Rightarrow> (string \<times> string) list" where
  "extract_markdown_links text = links_from None text"

text \<open>The literals the two passes search for.\<close>

definition image_literal :: "string \<times> string \<Rightarrow> string" where
  "image_literal img = ''!['' @ fst img @ ''](''  @ snd img @ '')''"

definition link_literal :: "string \<times> string \<Rightarrow> string" where
  "link_literal link = ''['' @ fst link @ ''](''  @ snd link @ '')''"

text \<open>The loops \<open>for image in images\<close> and \<open>for link in links\<close> with what follows them.\<close>

fun image_loop :: "(string \<times> string) list \<Rightarrow> string \<Rightarrow> error + TextNode list" where
  "image_loop [] original_text =
     Inr (if original_text \<noteq> [] then [TextNode original_text TEXT None] else [])"
| "image_loop (img # images) original_text =
     (case split_first (image_literal img) original_text of
        None \<Rightarrow> Inl (ValueError ''invalid markdown, image section not closed'')
      | Some (sec0, sec1) \<Rightarrow>
          (case image_loop images sec1 of
             Inl e \<Rightarrow> Inl e
           | Inr new_nodes \<Rightarrow>
               Inr ((if sec0 \<noteq> [] then [TextNode sec0 TEXT None] else [])
                    @ TextNode (fst img) IMAGE (Some (snd img)) # new_nodes)))"

fun link_loop :: "(string \<times> string) list \<Rightarrow> string \<Rightarrow> error + TextNode list" where
  "link_loop [] original_text =
     Inr (if original_text \<noteq> [] then [TextNode original_text TEXT None] else [])"
| "link_loop (link # links) original_text =
     (case split_first (link_literal link) original_text of
        None \<Rightarrow> Inl (ValueError ''invalid markdown, link section not closed'')
      | Some (sec0, sec1) \<Rightarrow>
          (case link_loop links sec1 of
             Inl e \<Rightarrow> Inl e
           | Inr new_nodes \<Rightarrow>
               Inr ((if sec0 \<noteq> [] then [TextNode sec0 TEXT None] else [])
                    @ TextNode (fst link) LINK (Some (snd link)) # new_nodes)))"

fun split_nodes_image :: "TextNode list \<Rightarrow> error + TextNode list" where
  "split_nodes_image [] = Inr []"
| "split_nodes_image (old_node # old_nodes) =
     (if text_type old_node \<noteq> TEXT \<or> extract_markdown_images (node_text old_node) = [] then
        (case split_nodes_image old_nodes of
           Inl e \<Rightarrow> Inl e
         | Inr new_nodes \<Rightarrow> Inr (old_node # new_nodes))
      else
        (case image_loop (extract_markdown_images (node_text old_node)) (node_text old_node) of
           Inl e \<Rightarrow> Inl e
         | Inr split_nodes \<Rightarrow>
             (case split_nodes_image old_nodes of
                Inl e \<Rightarrow> Inl e
              | Inr new_nodes \<Rightarrow> Inr (split_nodes @ new_nodes))))"

fun split_nodes_link :: "TextNode list \<Rightarrow> error + TextNode list" where
  "split_nodes_link [] = Inr []"
| "split_nodes_link (old_node # old_nodes) =
     (if text_type old_node \<noteq> TEXT \<or> extract_markdown_links (node_text old_node) = [] then
        (case split_nodes_link old_nodes of
           Inl e \<Rightarrow> Inl e
         | Inr new_nodes \<Rightarrow> Inr (old_node # new_nodes))
      else
        (case link_loop (extract_markdown_links (node_text old_node)) (node_text old_node) of
           Inl e \<Rightarrow> Inl e
         | Inr split_nodes \<Rightarrow>
             (case split_nodes_link old_nodes of
                Inl e \<Rightarrow> Inl e
              | Inr new_nodes \<Rightarrow> Inr (split_nodes @ new_nodes))))"

section \<open>The tokenizer\<close>

definition text_to_textnodes :: "string \<Rightarrow> error + TextNode list" where
  "text_to_textnodes text =
     (case split_nodes_delimiter [TextNode text TEXT None] ''**'' BOLD of
        Inl e \<Rightarrow> Inl e
      | Inr n1 \<Rightarrow>
     (case split_nodes_delimiter n1 ''_'' ITALIC of
        Inl e \<Rightarrow> Inl e
      | Inr n2 \<Rightarrow>
     (case split_nodes_delimiter n2 ''`'' CODE of
        Inl e \<Rightarrow> Inl e
      | Inr n3 \<Rightarrow>
     (case split_nodes_image n3 of
        Inl e \<Rightarrow> Inl e
      | Inr n4 \<Rightarrow> split_nodes_link n4))))"

section \<open>Block classification\<close>

text \<open>
  The members of \<open>BlockType\<close>; \<open>BlockType.CODE\<close> is \<open>CODE_BLOCK\<close> here, since \<open>CODE\<close> is
  the member of \<open>TextType\<close>.
\<close>

datatype BlockType = PARAGRAPH | HEADING | CODE_BLOCK | QUOTE | UNORDERED_LIST | ORDERED_LIST

definition startswith :: "string \<Rightarrow> string \<Rightarrow> bool" where
  "startswith s p = prefix p s"

definition endswith :: "string \<Rightarrow> string \<Rightarrow> bool" where
  "endswith s p = suffix p s"

text \<open>
  \<open>re.match(r"^#{1,6} ", block)\<close>: the greedy repetition tries six hash signs first and
  gives one back at a time; it matches when one of the counts is followed by a space.
\<close>

definition heading_match :: "string \<Rightarrow> bool" where
  "heading_match block =
     list_ex (\<lambda>n. prefix (replicate n CHR ''#'' @ '' '') block) [6, 5, 4, 3, 2, 1]"

text \<open>The decimal numeral that an f-string prints for a natural number.\<close>

definition digit_char :: "nat \<Rightarrow> char" where
  "digit_char d = char_of (48 + d)"

function str_of_nat :: "nat \<Rightarrow> string" where
  "str_of_nat n =
     (if n < 10 then [digit_char n] else str_of_nat (n div 10) @ [digit_char (n mod 10)])"
  by pat_completeness auto
termination
  by (relation "measure id") auto

declare str_of_nat.simps [simp del]

text \<open>
  The loop \<open>for i, line in enumerate(lines)\<close> of the ordered-list test, from index \<open>i\<close>
  on: the value of \<open>ordered_list_pattern\<close> when it ends.
\<close>

fun ordered_list_pattern :: "nat \<Rightarrow> string list \<Rightarrow> bool" where
  "ordered_list_pattern i [] = True"
| "ordered_list_pattern i (line # lines) =
     (if \<not> startswith line (str_of_nat (i + 1) @ ''. '') then False
      else ordered_list_pattern (i + 1) lines)"

definition block_to_block_type :: "string \<Rightarrow> BlockType" where
  "block_to_block_type block =
     (if startswith block ''#'' \<and> heading_match block then HEADING
      else if startswith block ''```'' \<and> endswith block ''```'' then CODE_BLOCK
      else
        (let lines = split_sections [NL] block in
         if list_all (\<lambda>line. startswith line ''>'') lines then QUOTE
         else if list_all (\<lambda>line. startswith line ''- '') lines then UNORDERED_LIST
         else if ordered_list_pattern 0 lines \<and> length lines > 0 then ORDERED_LIST
         else PARAGRAPH))"

section \<open>Block assembly\<close>

text \<open>
  Modelled from the spec: the render nodes of htmlnode.py, which is not among the
  sources: a leaf with a tag and a literal value, and a parent with a tag and an ordered
  list of children.  The conversion \<open>text_node_to_html_node\<close> of textnode.py is absent as
  well and is a parameter of the functions that call it, \<open>to_html\<close>; it may raise.
\<close>

datatype HTMLNode = LeafNode string string | ParentNode string "HTMLNode list"

fun convert_nodes :: "(TextNode \<Rightarrow> error + HTMLNode) \<Rightarrow> TextNode list \<Rightarrow> error + HTMLNode list" where
  "convert_nodes to_html [] = Inr []"
| "convert_nodes to_html (text_node # text_nodes) =
     (case to_html text_node of
        Inl e \<Rightarrow> Inl e
      | Inr html_node \<Rightarrow>
          (case convert_nodes to_html text_nodes of
             Inl e \<Rightarrow> Inl e
           | Inr children \<Rightarrow> Inr (html_node # children)))"

definition text_to_children :: "(TextNode \<Rightarrow> error + HTMLNode) \<Rightarrow> string \<Rightarrow> error + HTMLNode list" where
  "text_to_children to_html text =
     (case text_to_textnodes text of
        Inl e \<Rightarrow> Inl e
      | Inr text_nodes \<Rightarrow> convert_nodes to_html text_nodes)"

text \<open>\<open>sep.join(xs)\<close>.\<close>

fun join :: "string \<Rightarrow> string list \<Rightarrow> string" where
  "join sep [] = []"
| "join sep [x] = x"
| "join sep (x # y # ys) = x @ sep @ join sep (y # ys)"

definition paragraph_to_html_node :: "(TextNode \<Rightarrow> error + HTMLNode) \<Rightarrow> string \<Rightarrow> error + HTMLNode" where
  "paragraph_to_html_node to_html block =
     (let lines = split_sections [NL] block;
          paragraph_text = join '' '' lines
      in case text_to_children to_html paragraph_text of
           Inl e \<Rightarrow> Inl e
         | Inr children \<Rightarrow> Inr (ParentNode ''p'' children))"

definition heading_to_html_node :: "(TextNode \<Rightarrow> error + HTMLNode) \<Rightarrow> string \<Rightarrow> error + HTMLNode" where
  "heading_to_html_node to_html block =
     (let level = length (takeWhile (\<lambda>c. c = CHR ''#'') block) in
      if level < 1 \<or> level > 6
      then Inl (ValueError (''Invalid heading level: '' @ str_of_nat level))
      else
        (case text_to_children to_html (drop (level + 1) block) of
           Inl e \<Rightarrow> Inl e
         | Inr children \<Rightarrow> Inr (ParentNode (''h'' @ str_of_nat level) children)))"

text \<open>The slice \<open>block[3:-3]\<close> is empty when the block has fewer than six characters.\<close>

definition code_to_html_node :: "string \<Rightarrow> error + HTMLNode" where
  "code_to_html_node block =
     (if \<not> (startswith block ''```'' \<and> endswith block ''```'')
      then Inl (ValueError ''Invalid code block'')
      else Inr (ParentNode ''pre''
                  [LeafNode ''code'' (drop 3 (take (length block - 3) block))]))"

text \<open>The loop of \<open>quote_to_html_node\<close> over the lines: the list \<open>new_lines\<close>.\<close>

fun quote_lines :: "string list \<Rightarrow> error + string list" where
  "quote_lines [] = Inr []"
| "quote_lines (line # lines) =
     (if \<not> startswith line ''>'' then Inl (ValueError ''Invalid quote line'')
      else
        (case quote_lines lines of
           Inl e \<Rightarrow> Inl e
         | Inr new_lines \<Rightarrow> Inr (lstrip (lstrip_chars ''>'' line) # new_lines)))"

definition quote_to_html_node :: "(TextNode \<Rightarrow> error + HTMLNode) \<Rightarrow> string \<Rightarrow> error + HTMLNode" where
  "quote_to_html_node to_html block =
     (case quote_lines (split_sections [NL] block) of
        Inl e \<Rightarrow> Inl e
      | Inr new_lines \<Rightarrow>
          (case text_to_children to_html (join [NL] new_lines) of
             Inl e \<Rightarrow> Inl e
           | Inr children \<Rightarrow> Inr (ParentNode ''blockquote'' children)))"

fun unordered_items :: "(TextNode \<Rightarrow> error + HTMLNode) \<Rightarrow> string list \<Rightarrow> error + HTMLNode list" where
  "unordered_items to_html [] = Inr []"
| "unordered_items to_html (item # items) =
     (case text_to_children to_html (drop 2 item) of
        Inl e \<Rightarrow> Inl e
      | Inr children \<Rightarrow>
          (case unordered_items to_html items of
             Inl e \<Rightarrow> Inl e
           | Inr html_items \<Rightarrow> Inr (ParentNode ''li'' children # html_items)))"

definition unordered_list_to_html_node :: "(TextNode \<Rightarrow> error + HTMLNode) \<Rightarrow> string \<Rightarrow> error + HTMLNode" where
  "unordered_list_to_html_node to_html block =
     (case unordered_items to_html (split_sections [NL] block) of
        Inl e \<Rightarrow> Inl e
      | Inr html_items \<Rightarrow> Inr (ParentNode ''ul'' html_items))"

text \<open>\<open>item.split(". ", 1)[1]\<close> raises IndexError when the item has no \<open>". "\<close>.\<close>

fun ordered_items :: "(TextNode \<Rightarrow> error + HTMLNode) \<Rightarrow> string list \<Rightarrow> error + HTMLNode list" where
  "ordered_items to_html [] = Inr []"
| "ordered_items to_html (item # items) =
     (case split_first ''. '' item of
        None \<Rightarrow> Inl (IndexError ''list index out of range'')
      | Some (num, text) \<Rightarrow>
          (case text_to_children to_html text of
             Inl e \<Rightarrow> Inl e
           | Inr children \<Rightarrow>
               (case ordered_items to_html items of
                  Inl e \<Rightarrow> Inl e
                | Inr html_items \<Rightarrow> Inr (ParentNode ''li'' children # html_items))))"

definition ordered_list_to_html_node :: "(TextNode \<Rightarrow> error + HTMLNode) \<Rightarrow> string \<Rightarrow> error + HTMLNode" where
  "ordered_list_to_html_node to_html block =
     (case ordered_items to_html (split_sections [NL] block) of
        Inl e \<Rightarrow> Inl e
      | Inr html_items \<Rightarrow> Inr (ParentNode ''ol'' html_items))"

definition block_to_html_node :: "(TextNode \<Rightarrow> error + HTMLNode) \<Rightarrow> string \<Rightarrow> error + HTMLNode" where
  "block_to_html_node to_html block =
     (case block_to_block_type block of
        PARAGRAPH \<Rightarrow> paragraph_to_html_node to_html block
      | HEADING \<Rightarrow> heading_to_html_node to_html block
      | CODE_BLOCK \<Rightarrow> code_to_html_node block
      | QUOTE \<Rightarrow> quote_to_html_node to_html block
      | UNORDERED_LIST \<Rightarrow> unordered_list_to_html_node to_html block
      | ORDERED_LIST \<Rightarrow> ordered_list_to_html_node to_html block)"

fun blocks_to_html_nodes :: "(TextNode \<Rightarrow> error + HTMLNode) \<Rightarrow> string list \<Rightarrow> error + HTMLNode list" where
  "blocks_to_html_nodes to_html [] = Inr []"
| "blocks_to_html_nodes to_html (block # blocks) =
     (case block_to_html_node to_html block of
        Inl e \<Rightarrow> Inl e
      | Inr node \<Rightarrow>
          (case blocks_to_html_nodes to_html blocks of
             Inl e \<Rightarrow> Inl e
           | Inr children \<Rightarrow> Inr (node # children)))"

definition markdown_to_html_node :: "(TextNode \<Rightarrow> error + HTMLNode) \<Rightarrow> string \<Rightarrow> error + HTMLNode" where
  "markdown_to_html_node to_html markdown =
     (case blocks_to_html_nodes to_html (markdown_to_blocks markdown) of
        Inl e \<Rightarrow> Inl e
      | Inr children \<Rightarrow> Inr (ParentNode ''div'' children))"

section \<open>Notions of the specification\<close>

text \<open>
  The number of occurrences of the delimiter that the specification counts: the
  non-overlapping ones, found from the left, as \<open>str.count\<close> does.
\<close>

function delimiter_count :: "string \<Rightarrow> string \<Rightarrow> nat" where
  "delimiter_count delimiter s =
     (if delimiter = [] then length s + 1
      else if s = [] then 0
      else if prefix delimiter s then 1 + delimiter_count delimiter (drop (length delimiter) s)
      else delimiter_count delimiter (tl s))"
  by pat_completeness auto
termination
  by (relation "measure (\<lambda>(d, s). length s)") (auto simp: neq_Nil_conv)

declare delimiter_count.simps [simp del]

text \<open>
  The spans the specification describes for a list of sections: the empty sections
  dropped, a section at an even index a Text span, one at an odd index a span of the
  target type.
\<close>

definition spans_of_sections :: "TextType \<Rightarrow> string list \<Rightarrow> TextNode list" where
  "spans_of_sections tt secs =
     map (\<lambda>i. TextNode (secs ! i) (if even i then TEXT else tt) None)
         (filter (\<lambda>i. secs ! i \<noteq> []) [0..<length secs])"

text \<open>
  A text with none of the inline markers: no \<open>**\<close>, no underscore, no backtick, and
  neither pattern finds a match.
\<close>

definition no_inline_markers :: "string \<Rightarrow> bool" where
  "no_inline_markers text \<longleftrightarrow>
     \<not> sublist ''**'' text \<and> CHR ''_'' \<notin> set text \<and> CHR ''`'' \<notin> set text
     \<and> extract_markdown_images text = [] \<and> extract_markdown_links text = []"

text \<open>The message an exception carries.\<close>

definition error_message :: "error \<Rightarrow> string" where
  "error_message e = (case e of ValueError m \<Rightarrow> m | IndexError m \<Rightarrow> m)"

text \<open>
  The rules of the classifier in the words of the specification.  Heading: the block
  starts with one to six hash signs, followed at once by a space.
\<close>

definition is_heading :: "string \<Rightarrow> bool" where
  "is_heading block \<longleftrightarrow>
     (let n = length (takeWhile (\<lambda>c. c = CHR ''#'') block)
      in 1 \<le> n \<and> n \<le> 6 \<and> prefix '' '' (drop n block))"

text \<open>Code: the block starts with three backticks and ends with three backticks.\<close>

definition is_code_fence :: "string \<Rightarrow> bool" where
  "is_code_fence block \<longleftrightarrow> prefix ''```'' block \<and> suffix ''```'' block"

text \<open>Quote and UnorderedList: every line starts with \<open>>\<close>, or with \<open>"- "\<close>.\<close>

definition is_quote :: "string \<Rightarrow> bool" where
  "is_quote block \<longleftrightarrow> (\<forall>line \<in> set (split_sections [NL] block). prefix ''>'' line)"

definition is_unordered :: "string \<Rightarrow> bool" where
  "is_unordered block \<longleftrightarrow> (\<forall>line \<in> set (split_sections [NL] block). prefix ''- '' line)"

text \<open>OrderedList: the line at index \<open>i\<close> starts with the numeral of \<open>i + 1\<close> and \<open>". "\<close>.\<close>

definition is_ordered :: "string \<Rightarrow> bool" where
  "is_ordered block \<longleftrightarrow>
     (\<forall>i \<in> {0..<length (split_sections [NL] block)}.
        prefix (str_of_nat (i + 1) @ ''. '') (split_sections [NL] block ! i))"

text \<open>
  The stripping of a quote line in the words of the specification: exactly one leading
  \<open>>\<close> is dropped, and one white-space character after it if there is one.
\<close>

definition spec_strip_quote_line :: "string \<Rightarrow> string" where
  "spec_strip_quote_line line =
     (case line of
        [] \<Rightarrow> []
      | c # r \<Rightarrow>
          if c \<noteq> CHR ''>'' then line
          else (case r of [] \<Rightarrow> [] | d # r' \<Rightarrow> if is_space d then r' else r))"

text \<open>
  The markdown text a span stands for: a Text span for its text, an Image or Link span
  for its literal, a Bold, Italic or Code span for its text between its delimiters.
\<close>

definition source_text :: "TextNode \<Rightarrow> string" where
  "source_text n =
     (case text_type n of
        TEXT \<Rightarrow> node_text n
      | BOLD \<Rightarrow> ''**'' @ node_text n @ ''**''
      | ITALIC \<Rightarrow> ''_'' @ node_text n @ ''_''
      | CODE \<Rightarrow> ''`'' @ node_text n @ ''`''
      | IMAGE \<Rightarrow> image_literal (node_text n, case url n of None \<Rightarrow> [] | Some u \<Rightarrow> u)
      | LINK \<Rightarrow> link_literal (node_text n, case url n of None \<Rightarrow> [] | Some u \<Rightarrow> u))"

text \<open>
  An image misread as a link shows in a list of spans as a Link span that directly
  follows a Text span ending in \<open>!\<close>.
\<close>

fun link_after_bang :: "TextNode list \<Rightarrow> bool" where
  "link_after_bang [] = False"
| "link_after_bang [a] = False"
| "link_after_bang (a # b # rest) =
     ((text_type a = TEXT \<and> text_type b = LINK
         \<and> node_text a \<noteq> [] \<and> last (node_text a) = CHR ''!'')
      \<or> link_after_bang (b # rest))"

text \<open>
  What the link pass may put in the place of one span: a span that is not Text stays as
  it is; a Text span becomes spans that stand for the same text, with no Link span
  directly after a \<open>!\<close>.
\<close>

definition link_chunk_ok :: "TextNode \<Rightarrow> TextNode list \<Rightarrow> bool" where
  "link_chunk_ok n chunk \<longleftrightarrow>
     (if text_type n \<noteq> TEXT then chunk = [n]
      else \<not> link_after_bang chunk \<and> concat (map source_text chunk) = node_text n)"

text \<open>A label without brackets and an address without parentheses.\<close>

definition well_formed_pair :: "string \<times> string \<Rightarrow> bool" where
  "well_formed_pair p \<longleftrightarrow>
     CHR ''['' \<notin> set (fst p) \<and> CHR '']'' \<notin> set (fst p)
     \<and> CHR ''('' \<notin> set (snd p) \<and> CHR '')'' \<notin> set (snd p)"

section \<open>Splitting: auxiliary facts\<close>

lemma split_first_None: "\<not> sublist sep s \<Longrightarrow> split_first sep s = None"
proof (induction s)
  case Nil
  then show ?case by auto
next
  case (Cons c cs)
  from Cons.prems have np: "\<not> prefix sep (c # cs)" 
    using prefix_imp_sublist by blast
  from Cons.prems have "\<not> sublist sep cs"
    by (simp add: sublist_Cons_right)
  with Cons.IH np show ?case by simp
qed

lemma split_first_None_iff: "split_first sep s = None \<longleftrightarrow> \<not> sublist sep s"
proof
  assume "split_first sep s = None"
  then show "\<not> sublist sep s"
  proof (induction s)
    case Nil
    then show ?case by (auto split: if_splits)
  next
    case (Cons c cs)
    then show ?case
      by (auto simp: sublist_Cons_right split: if_splits option.splits)
  qed
qed (rule split_first_None)

lemma split_first_leftmost:
  "sep \<noteq> [] \<Longrightarrow> split_first sep s = Some (a, b) \<Longrightarrow> \<not> sublist sep a"
proof (induction s arbitrary: a)
  case Nil
  then show ?case by simp
next
  case (Cons c cs)
  show ?case
  proof (cases "prefix sep (c # cs)")
    case True
    with Cons.prems show ?thesis by simp
  next
    case False
    with Cons.prems obtain a' where s: "split_first sep cs = Some (a', b)" and a: "a = c # a'"
      by (auto split: option.splits)
    from Cons.IH [OF Cons.prems(1) s] have n: "\<not> sublist sep a'" .
    from split_first_Some [OF s] have cs: "cs = a' @ sep @ b" .
    have "\<not> prefix sep (c # a')"
    proof
      assume "prefix sep (c # a')"
      then have "prefix sep ((c # a') @ sep @ b)" by (rule prefix_prefix)
      with cs False show False by simp
    qed
    with n a show ?thesis by (simp add: sublist_Cons_right)
  qed
qed

lemma split_sections_no_delimiter:
  "sep \<noteq> [] \<Longrightarrow> sec \<in> set (split_sections sep s) \<Longrightarrow> \<not> sublist sep sec"
proof (induction sep s rule: split_sections.induct)
  case (1 sep s)
  show ?case
  proof (cases "split_first sep s")
    case None
    with "1.prems" have "sec = s" by (simp add: split_sections.simps)
    with None show ?thesis by (simp add: split_first_None_iff)
  next
    case (Some ab)
    obtain a b where ab: "ab = (a, b)" by (cases ab)
    from "1.prems" Some ab have "sec = a \<or> sec \<in> set (split_sections sep b)"
      by (simp add: split_sections.simps [of sep s])
    then show ?thesis
    proof
      assume "sec = a"
      with split_first_leftmost [OF "1.prems"(1)] Some ab show ?thesis by simp
    next
      assume "sec \<in> set (split_sections sep b)"
      with "1.IH" [OF "1.prems"(1) _ _ "1.prems"(1)] Some ab show ?thesis by simp
    qed
  qed
qed

lemma join_Cons: "ys \<noteq> [] \<Longrightarrow> join sep (x # ys) = x @ sep @ join sep ys"
  by (cases ys) simp_all

lemma split_sections_not_Nil: "split_sections sep s \<noteq> []"
  by (simp add: split_sections.simps [of sep s] split: option.splits)

lemma join_split_sections: "join sep (split_sections sep s) = s"
proof (induction sep s rule: split_sections.induct)
  case (1 sep s)
  show ?case
  proof (cases "sep = []")
    case True
    then show ?thesis by (simp add: split_sections.simps)
  next
    case False
    show ?thesis
    proof (cases "split_first sep s")
      case None
      with False show ?thesis by (simp add: split_sections.simps)
    next
      case (Some ab)
      obtain a b where ab: "ab = (a, b)" by (cases ab)
      from "1.IH" [OF False] Some ab have j: "join sep (split_sections sep b) = b" by simp
      from False Some ab have ss: "split_sections sep s = a # split_sections sep b"
        by (simp add: split_sections.simps [of sep s])
      from Some ab have "s = a @ sep @ b" by (simp add: split_first_Some)
      with j show ?thesis
        unfolding ss by (simp add: join_Cons split_sections_not_Nil)
    qed
  qed
qed

lemma split_sections_Cons_not_prefix:
  "sep \<noteq> [] \<Longrightarrow> \<not> prefix sep (c # cs) \<Longrightarrow>
   length (split_sections sep (c # cs)) = length (split_sections sep cs)"
  by (simp add: split_sections.simps [of sep "c # cs"] split_sections.simps [of sep cs]
      split: option.splits)

lemma split_sections_prefix:
  assumes "sep \<noteq> []" and "prefix sep s"
  shows "split_sections sep s = [] # split_sections sep (drop (length sep) s)"
proof -
  from assms have "split_first sep s = Some ([], drop (length sep) s)"
    by (cases s) auto
  with assms show ?thesis by (subst split_sections.simps) simp
qed

lemma length_split_sections:
  "sep \<noteq> [] \<Longrightarrow> length (split_sections sep s) = delimiter_count sep s + 1"
proof (induction sep s rule: delimiter_count.induct)
  case (1 d s)
  show ?case
  proof (cases s)
    case Nil
    with "1.prems" show ?thesis
      by (simp add: split_sections.simps delimiter_count.simps)
  next
    case (Cons c cs)
    show ?thesis
    proof (cases "prefix d s")
      case True
      with "1.IH"(1) "1.prems" Cons
      have "length (split_sections d (drop (length d) s)) = delimiter_count d (drop (length d) s) + 1"
        by simp
      moreover from True "1.prems" Cons
      have "split_sections d s = [] # split_sections d (drop (length d) s)"
        by (simp add: split_sections_prefix)
      moreover from True "1.prems" Cons
      have "delimiter_count d s = 1 + delimiter_count d (drop (length d) s)"
        by (subst delimiter_count.simps) simp
      ultimately show ?thesis by simp
    next
      case False
      with "1.IH"(2) "1.prems" Cons
      have "length (split_sections d cs) = delimiter_count d cs + 1" by simp
      moreover from False "1.prems" Cons
      have "length (split_sections d s) = length (split_sections d cs)"
        by (simp add: split_sections_Cons_not_prefix)
      moreover from False "1.prems" Cons
      have "delimiter_count d s = delimiter_count d cs"
        by (subst delimiter_count.simps) simp
      ultimately show ?thesis by simp
    qed
  qed
qed

lemma delimiter_spans_index:
  "delimiter_spans i secs tt =
     map (\<lambda>j. TextNode (secs ! j) (if even (i + j) then TEXT else tt) None)
         (filter (\<lambda>j. secs ! j \<noteq> []) [0..<length secs])"
proof (induction secs arbitrary: i)
  case Nil
  show ?case by simp
next
  case (Cons sec secs)
  have upt: "[0..<length (sec # secs)] = 0 # map Suc [0..<length secs]"
    by (simp add: upt_conv_Cons map_Suc_upt del: upt_Suc)
  show ?case
    unfolding upt by (simp add: Cons.IH filter_map o_def even_iff_mod_2_eq_zero del: upt_Suc)
qed

lemma delimiter_spans_eq: "delimiter_spans 0 secs tt = spans_of_sections tt secs"
  by (simp add: delimiter_spans_index spans_of_sections_def)

lemma delimiter_spans_nonempty: "n \<in> set (delimiter_spans i secs tt) \<Longrightarrow> node_text n \<noteq> []"
  by (induction secs arbitrary: i) (auto split: if_splits)

lemma split_first_char_None: "c \<notin> set s \<Longrightarrow> split_first [c] s = None"
  by (induction s) auto

lemma split_sections_None: "split_first sep s = None \<Longrightarrow> split_sections sep s = [s]"
  by (simp add: split_sections.simps)

section \<open>The delimiter pass: auxiliary facts\<close>

lemma split_nodes_delimiter_even_aux:
  assumes ne: "delimiter \<noteq> []"
    and ev: "\<forall>n \<in> set old_nodes.
               text_type n = TEXT \<longrightarrow> even (delimiter_count delimiter (node_text n))"
  shows "split_nodes_delimiter old_nodes delimiter tt =
           Inr (concat (map (\<lambda>n. if text_type n \<noteq> TEXT then [n]
                                  else spans_of_sections tt
                                         (split_sections delimiter (node_text n)))
                            old_nodes))"
  using ev
proof (induction old_nodes)
  case Nil
  show ?case by simp
next
  case (Cons n ns)
  from Cons have IH: "split_nodes_delimiter ns delimiter tt =
           Inr (concat (map (\<lambda>n. if text_type n \<noteq> TEXT then [n]
                                  else spans_of_sections tt
                                         (split_sections delimiter (node_text n)))
                            ns))" by simp
  show ?case
  proof (cases "text_type n = TEXT")
    case False
    with IH show ?thesis by simp
  next
    case True
    with Cons.prems have "even (delimiter_count delimiter (node_text n))" by simp
    with ne have "odd (length (split_sections delimiter (node_text n)))"
      by (simp add: length_split_sections)
    then have "length (split_sections delimiter (node_text n)) mod 2 \<noteq> 0"
      by presburger
    with True ne IH show ?thesis
      by (simp add: Let_def delimiter_spans_eq)
  qed
qed

lemma split_nodes_delimiter_odd_aux:
  assumes ne: "delimiter \<noteq> []"
    and n: "n \<in> set old_nodes" "text_type n = TEXT"
           "odd (delimiter_count delimiter (node_text n))"
  shows "split_nodes_delimiter old_nodes delimiter tt =
           Inl (ValueError ''invalid markdown, formatted section not closed'')"
  using n(1)
proof (induction old_nodes)
  case Nil
  then show ?case by simp
next
  case (Cons h hs)
  show ?case
  proof (cases "text_type h = TEXT
                \<and> length (split_sections delimiter (node_text h)) mod 2 = 0")
    case True
    with ne show ?thesis by (simp add: Let_def)
  next
    case False
    have "h \<noteq> n"
    proof
      assume "h = n"
      with n ne have "even (length (split_sections delimiter (node_text h)))"
        by (simp add: length_split_sections)
      then have "length (split_sections delimiter (node_text h)) mod 2 = 0"
        by presburger
      with False n \<open>h = n\<close> show False by simp
    qed
    with Cons.prems have "n \<in> set hs" by simp
    from Cons.IH [OF this] False ne show ?thesis by (auto simp: Let_def)
  qed
qed

section \<open>Block classification: auxiliary facts\<close>

lemma takeWhile_eq_replicate:
  "takeWhile (\<lambda>c. c = x) xs = replicate (length (takeWhile (\<lambda>c. c = x) xs)) x"
  by (induction xs) simp_all

lemma takeWhile_replicate_append:
  "y \<noteq> x \<Longrightarrow> takeWhile (\<lambda>c. c = x) (replicate n x @ y # r) = replicate n x"
  by (induction n) simp_all

lemma is_heading_iff:
  "is_heading block \<longleftrightarrow> (\<exists>n \<in> {1..6}. prefix (replicate n CHR ''#'' @ '' '') block)"
proof
  let ?P = "\<lambda>c. c = CHR ''#''"
  define n where "n = length (takeWhile ?P block)"
  assume "is_heading block"
  then have n: "1 \<le> n" "n \<le> 6" and p: "prefix '' '' (drop n block)"
    by (simp_all add: is_heading_def n_def Let_def)
  have "block = takeWhile ?P block @ dropWhile ?P block" by simp
  also have "takeWhile ?P block = replicate n CHR ''#''"
    unfolding n_def by (rule takeWhile_eq_replicate)
  also have "dropWhile ?P block = drop n block"
    unfolding n_def by (rule dropWhile_eq_drop)
  finally have "block = replicate n CHR ''#'' @ drop n block" .
  with p have "prefix (replicate n CHR ''#'' @ '' '') block"
    by (metis same_prefix_prefix)
  with n show "\<exists>n \<in> {1..6}. prefix (replicate n CHR ''#'' @ '' '') block" by auto
next
  let ?P = "\<lambda>c. c = CHR ''#''"
  assume "\<exists>n \<in> {1..6}. prefix (replicate n CHR ''#'' @ '' '') block"
  then obtain n r where n: "1 \<le> n" "n \<le> 6"
    and b: "block = replicate n CHR ''#'' @ CHR '' '' # r"
    by (auto simp: prefix_def)
  have "takeWhile ?P block = replicate n CHR ''#''"
    unfolding b by (rule takeWhile_replicate_append) simp
  then have "length (takeWhile ?P block) = n" by simp
  moreover have "drop n block = CHR '' '' # r" unfolding b by simp
  ultimately show "is_heading block" using n by (simp add: is_heading_def)
qed

lemma heading_match_iff: "startswith block ''#'' \<and> heading_match block \<longleftrightarrow> is_heading block"
proof -
  have set: "set [6, 5, 4, 3, 2, Suc 0] = {1..6}" by auto
  have "heading_match block \<longleftrightarrow> is_heading block"
    unfolding heading_match_def is_heading_iff list_ex_iff using set by simp
  moreover have "is_heading block \<Longrightarrow> startswith block ''#''"
  proof -
    assume "is_heading block"
    then obtain n where n: "1 \<le> n" and p: "prefix (replicate n CHR ''#'' @ '' '') block"
      by (auto simp: is_heading_iff)
    from n obtain m where "n = Suc m" by (cases n) auto
    with p show ?thesis by (auto simp: startswith_def prefix_def)
  qed
  ultimately show ?thesis by blast
qed

lemma ordered_list_pattern_iff:
  "ordered_list_pattern k lines \<longleftrightarrow>
     (\<forall>i \<in> {0..<length lines}. prefix (str_of_nat (k + i + 1) @ ''. '') (lines ! i))"
proof (induction lines arbitrary: k)
  case Nil
  show ?case by simp
next
  case (Cons l ls)
  have "(\<forall>i \<in> {0..<length (l # ls)}. prefix (str_of_nat (k + i + 1) @ ''. '') ((l # ls) ! i))
        \<longleftrightarrow> prefix (str_of_nat (k + 1) @ ''. '') l
            \<and> (\<forall>i \<in> {0..<length ls}. prefix (str_of_nat (Suc k + i + 1) @ ''. '') (ls ! i))"
    (is "?L \<longleftrightarrow> ?A \<and> ?B")
  proof
    assume L: ?L
    then have ?A by force
    moreover have ?B
    proof
      fix i assume "i \<in> {0..<length ls}"
      then have "Suc i \<in> {0..<length (l # ls)}" by simp
      with L have "prefix (str_of_nat (k + Suc i + 1) @ ''. '') ((l # ls) ! Suc i)" by blast
      then show "prefix (str_of_nat (Suc k + i + 1) @ ''. '') (ls ! i)" by simp
    qed
    ultimately show "?A \<and> ?B" ..
  next
    assume AB: "?A \<and> ?B"
    show ?L
    proof
      fix i assume i: "i \<in> {0..<length (l # ls)}"
      show "prefix (str_of_nat (k + i + 1) @ ''. '') ((l # ls) ! i)"
      proof (cases i)
        case 0
        with AB show ?thesis by simp
      next
        case (Suc j)
        with i have "j \<in> {0..<length ls}" by simp
        with AB have "prefix (str_of_nat (Suc k + j + 1) @ ''. '') (ls ! j)" by blast
        with Suc show ?thesis by simp
      qed
    qed
  qed
  with Cons.IH [of "Suc k"] show ?case by (simp add: startswith_def)
qed

lemma block_to_block_type_precedence:
  "block_to_block_type block =
     (if is_heading block then HEADING
      else if is_code_fence block then CODE_BLOCK
      else if is_quote block then QUOTE
      else if is_unordered block then UNORDERED_LIST
      else if is_ordered block then ORDERED_LIST
      else PARAGRAPH)"
proof -
  have o: "ordered_list_pattern 0 (split_sections [NL] block) \<longleftrightarrow> is_ordered block"
    by (simp add: ordered_list_pattern_iff is_ordered_def)
  have l: "length (split_sections [NL] block) > 0"
    using split_sections_not_Nil [of "[NL]" block] by simp
  show ?thesis
    unfolding block_to_block_type_def heading_match_iff
    by (simp add: Let_def o l is_code_fence_def is_quote_def is_unordered_def
        startswith_def endswith_def list_all_iff)
qed

lemma prefix_hd_split_sections: "prefix (hd (split_sections sep s)) s"
proof -
  obtain x xs where xs: "split_sections sep s = x # xs"
    using split_sections_not_Nil [of sep s] by (cases "split_sections sep s") auto
  have "prefix x (join sep (x # xs))" by (cases xs) simp_all
  with xs join_split_sections [of sep s] show ?thesis by simp
qed

lemma is_quote_first_char: "is_quote block \<Longrightarrow> prefix ''>'' block"
proof -
  assume q: "is_quote block"
  have "hd (split_sections [NL] block) \<in> set (split_sections [NL] block)"
    using split_sections_not_Nil by simp
  with q have "prefix ''>'' (hd (split_sections [NL] block))" by (simp add: is_quote_def)
  then show ?thesis
    using prefix_hd_split_sections [of "[NL]" block] by (rule prefix_order.trans)
qed

lemma is_quote_QUOTE: "is_quote block \<Longrightarrow> block_to_block_type block = QUOTE"
proof -
  assume q: "is_quote block"
  from is_quote_first_char [OF q] obtain r where b: "block = CHR ''>'' # r"
    by (auto simp: prefix_def)
  have "\<not> is_heading block"
  proof
    assume "is_heading block"
    then obtain n where n: "1 \<le> n" and p: "prefix (replicate n CHR ''#'' @ '' '') block"
      by (auto simp: is_heading_iff)
    from n obtain m where "n = Suc m" by (cases n) auto
    with p b show False by simp
  qed
  moreover from b have "\<not> is_code_fence block" by (simp add: is_code_fence_def)
  ultimately show ?thesis using q by (simp add: block_to_block_type_precedence)
qed

lemma quote_lines_all:
  "\<forall>line \<in> set lines. prefix ''>'' line \<Longrightarrow>
   quote_lines lines
     = Inr (map (\<lambda>line. dropWhile is_space (dropWhile (\<lambda>c. c = CHR ''>'') line)) lines)"
  by (induction lines) (simp_all add: startswith_def lstrip_def lstrip_chars_def)

lemma QUOTE_is_quote: "block_to_block_type block = QUOTE \<Longrightarrow> is_quote block"
  by (simp add: block_to_block_type_precedence split: if_splits)

section \<open>Images and links: auxiliary facts\<close>

lemma match_link_body_paren: "CHR ''('' \<notin> set s \<Longrightarrow> match_link_body s = None"
proof (rule ccontr)
  assume n: "CHR ''('' \<notin> set s" and "match_link_body s \<noteq> None"
  then obtain g1 g2 r where "match_link_body s = Some (g1, g2, r)" by auto
  from match_link_body_Some [OF this] n show False by simp
qed

lemma match_link_body_first: "c \<noteq> CHR ''['' \<Longrightarrow> match_link_body (c # cs) = None"
  by (simp add: match_link_body_def)

lemma extract_markdown_images_no_paren:
  "CHR ''('' \<notin> set s \<Longrightarrow> extract_markdown_images s = []"
proof (induction s)
  case Nil
  show ?case by simp
next
  case (Cons c cs)
  then have "match_link_body cs = None" by (simp add: match_link_body_paren)
  then have "match_image (c # cs) = None" by (simp add: match_image_def)
  with Cons show ?case by simp
qed

lemma links_from_no_paren:
  "CHR ''('' \<notin> set s \<Longrightarrow> links_from prev s = []"
proof (induction s arbitrary: prev)
  case Nil
  show ?case by simp
next
  case (Cons c cs)
  then have "match_link_body (c # cs) = None" by (simp add: match_link_body_paren)
  with Cons show ?case by simp
qed

lemma extract_markdown_images_skip:
  "CHR ''['' \<notin> set p \<Longrightarrow> x \<noteq> CHR ''['' \<Longrightarrow>
   extract_markdown_images (p @ x # t) = extract_markdown_images (x # t)"
proof (induction p)
  case Nil
  show ?case by simp
next
  case (Cons c p)
  have "match_link_body (p @ x # t) = None"
  proof (cases p)
    case Nil
    with Cons.prems show ?thesis by (simp add: match_link_body_first)
  next
    case (Cons d p')
    with Cons.prems show ?thesis by (auto simp: match_link_body_first)
  qed
  then have "match_image (c # p @ x # t) = None" by (simp add: match_image_def)
  with Cons show ?case by simp
qed

lemma links_from_skip:
  "CHR ''['' \<notin> set p \<Longrightarrow> p \<noteq> [] \<Longrightarrow>
   links_from prev (p @ t) = links_from (Some (last p)) t"
proof (induction p arbitrary: prev)
  case Nil
  then show ?case by simp
next
  case (Cons c p)
  have m: "match_link_body (c # p @ t) = None"
    using Cons.prems by (auto simp: match_link_body_first)
  show ?case
  proof (cases p)
    case Nil
    with m show ?thesis by simp
  next
    case (Cons d p')
    with Cons.IH [of "Some c"] Cons.prems m show ?thesis by simp
  qed
qed

lemma image_not_link:
  assumes "CHR ''['' \<notin> set alt" "CHR '']'' \<notin> set alt" "CHR ''('' \<notin> set u" "CHR '')'' \<notin> set u"
  shows "extract_markdown_links (''!['' @ alt @ ''](''  @ u @ '')'') = []"
proof -
  have "links_from (Some CHR ''['') ((alt @ '']('') @ (u @ '')''))
          = links_from (Some (last (alt @ '']('')))  (u @ '')'')"
    using assms by (intro links_from_skip) simp_all
  also have "\<dots> = []" using assms by (intro links_from_no_paren) simp
  finally show ?thesis
    by (simp add: extract_markdown_links_def match_link_body_def)
qed

lemma link_not_image:
  assumes "CHR ''['' \<notin> set alt" "CHR '']'' \<notin> set alt" "CHR ''('' \<notin> set u" "CHR '')'' \<notin> set u"
  shows "extract_markdown_images (''['' @ alt @ ''](''  @ u @ '')'') = []"
proof -
  have "extract_markdown_images ((alt @ '']'') @ CHR ''('' # (u @ '')''))
          = extract_markdown_images (CHR ''('' # (u @ '')''))"
    using assms by (intro extract_markdown_images_skip) simp_all
  also have "\<dots> = extract_markdown_images (u @ '')'')"
    by (simp add: match_image_def)
  also have "\<dots> = []" using assms by (intro extract_markdown_images_no_paren) simp
  finally show ?thesis
    by (simp add: match_image_def)
qed

lemma split_first_occurrence:
  "s = pre @ lit @ post \<Longrightarrow> \<exists>a b. split_first lit s = Some (a, b) \<and> suffix post b"
proof (induction pre arbitrary: s)
  case Nil
  then have p: "prefix lit s" and d: "drop (length lit) s = post" by simp_all
  show ?case
  proof (cases s)
    case Nil
    with \<open>s = [] @ lit @ post\<close> show ?thesis by simp
  next
    case (Cons c cs)
    with p d show ?thesis by auto
  qed
next
  case (Cons c pre)
  then have s: "s = c # (pre @ lit @ post)" by simp
  show ?case
  proof (cases "prefix lit s")
    case True
    then have "s = lit @ drop (length lit) s"
      by (metis append_eq_conv_conj prefix_def)
    then have "suffix (drop (length lit) s) s" by (metis suffixI)
    moreover have "suffix post s" unfolding s by (metis Cons.prems suffixI append_assoc s)
    moreover have "length post \<le> length (drop (length lit) s)" unfolding s by simp
    ultimately have "suffix post (drop (length lit) s)"
      using suffix_length_suffix [of post s "drop (length lit) s"] by blast
    with True s show ?thesis by simp
  next
    case False
    from Cons.IH [of "pre @ lit @ post"] obtain a b
      where "split_first lit (pre @ lit @ post) = Some (a, b)" and "suffix post b" by auto
    with False s show ?thesis by simp
  qed
qed

lemma extract_markdown_images_Cons:
  "extract_markdown_images s = img # imgs \<Longrightarrow>
   \<exists>pre post. s = pre @ image_literal img @ post \<and> imgs = extract_markdown_images post"
proof (induction s rule: extract_markdown_images.induct)
  case 1
  then show ?case by simp
next
  case (2 c cs)
  show ?case
  proof (cases "match_image (c # cs)")
    case None
    with "2.prems" have "extract_markdown_images cs = img # imgs" by simp
    from "2.IH"(1) [OF None this] obtain pre post
      where "cs = pre @ image_literal img @ post" "imgs = extract_markdown_images post" by auto
    then have "c # cs = (c # pre) @ image_literal img @ post" by simp
    with \<open>imgs = extract_markdown_images post\<close> show ?thesis by blast
  next
    case (Some m)
    obtain g1 g2 r where m: "m = (g1, g2, r)" by (cases m)
    with Some "2.prems" have i: "img = (g1, g2)" and r: "imgs = extract_markdown_images r"
      by simp_all
    from match_image_Some Some m have "c # cs = ''!['' @ g1 @ ''](''  @ g2 @ '')'' @ r"
      by simp
    with i have "c # cs = [] @ image_literal img @ r" by (simp add: image_literal_def)
    with r show ?thesis by blast
  qed
qed

lemma links_from_Cons:
  "links_from prev s = lnk # lnks \<Longrightarrow>
   \<exists>pre post. s = pre @ link_literal lnk @ post \<and> lnks = links_from (Some CHR '')'') post"
proof (induction prev s rule: links_from.induct)
  case (1 prev)
  then show ?case by simp
next
  case (2 prev c cs)
  show ?case
  proof (cases "prev \<noteq> Some CHR ''!'' \<and> match_link_body (c # cs) \<noteq> None")
    case False
    with "2.prems" have l: "links_from (Some c) cs = lnk # lnks"
      by (auto split: if_splits option.splits)
    have "\<exists>pre post. cs = pre @ link_literal lnk @ post \<and> lnks = links_from (Some CHR '')'') post"
    proof (cases "prev = Some CHR ''!''")
      case True
      with "2.IH" l show ?thesis by blast
    next
      case F: False
      with False have "match_link_body (c # cs) = None" by blast
      with "2.IH" F l show ?thesis by blast
    qed
    then obtain pre post
      where "cs = pre @ link_literal lnk @ post" "lnks = links_from (Some CHR '')'') post" by auto
    then have "c # cs = (c # pre) @ link_literal lnk @ post" by simp
    with \<open>lnks = links_from (Some CHR '')'') post\<close> show ?thesis by blast
  next
    case True
    then obtain g1 g2 r where m: "match_link_body (c # cs) = Some (g1, g2, r)" by auto
    with True "2.prems" have i: "lnk = (g1, g2)" and r: "lnks = links_from (Some CHR '')'') r"
      by simp_all
    from match_link_body_Some [OF m] i have "c # cs = [] @ link_literal lnk @ r"
      by (simp add: link_literal_def)
    with r show ?thesis by blast
  qed
qed

lemma image_loop_succeeds:
  "suffix t original_text \<Longrightarrow> images = extract_markdown_images t \<Longrightarrow>
   \<exists>new_nodes. image_loop images original_text = Inr new_nodes"
proof (induction images arbitrary: t original_text)
  case Nil
  show ?case by simp
next
  case (Cons img imgs)
  from extract_markdown_images_Cons [OF Cons.prems(2) [symmetric]] obtain pre post
    where t: "t = pre @ image_literal img @ post" and imgs: "imgs = extract_markdown_images post"
    by auto
  from Cons.prems(1) obtain u where "original_text = u @ t" by (auto simp: suffix_def)
  with t have "original_text = (u @ pre) @ image_literal img @ post" by simp
  from split_first_occurrence [OF this] obtain a b
    where sp: "split_first (image_literal img) original_text = Some (a, b)"
      and su: "suffix post b" by auto
  from Cons.IH [OF su imgs] obtain ns where "image_loop imgs b = Inr ns" by auto
  with sp show ?case by simp
qed

lemma link_loop_succeeds:
  "suffix t original_text \<Longrightarrow> links = links_from prev t \<Longrightarrow>
   \<exists>new_nodes. link_loop links original_text = Inr new_nodes"
proof (induction links arbitrary: t original_text prev)
  case Nil
  show ?case by simp
next
  case (Cons lnk lnks)
  from links_from_Cons [OF Cons.prems(2) [symmetric]] obtain pre post
    where t: "t = pre @ link_literal lnk @ post" and lnks: "lnks = links_from (Some CHR '')'') post"
    by auto
  from Cons.prems(1) obtain u where "original_text = u @ t" by (auto simp: suffix_def)
  with t have "original_text = (u @ pre) @ link_literal lnk @ post" by simp
  from split_first_occurrence [OF this] obtain a b
    where sp: "split_first (link_literal lnk) original_text = Some (a, b)"
      and su: "suffix post b" by auto
  from Cons.IH [OF su lnks] obtain ns where "link_loop lnks b = Inr ns" by auto
  with sp show ?case by simp
qed

lemma split_nodes_image_succeeds: "\<exists>new_nodes. split_nodes_image old_nodes = Inr new_nodes"
proof (induction old_nodes)
  case Nil
  show ?case by simp
next
  case (Cons n ns)
  then obtain r where r: "split_nodes_image ns = Inr r" by auto
  obtain l where "image_loop (extract_markdown_images (node_text n)) (node_text n) = Inr l"
    using image_loop_succeeds [OF suffix_order.refl refl] by blast
  with r show ?case by simp
qed

lemma split_nodes_link_succeeds: "\<exists>new_nodes. split_nodes_link old_nodes = Inr new_nodes"
proof (induction old_nodes)
  case Nil
  show ?case by simp
next
  case (Cons n ns)
  then obtain r where r: "split_nodes_link ns = Inr r" by auto
  obtain l where "link_loop (extract_markdown_links (node_text n)) (node_text n) = Inr l"
    using link_loop_succeeds [where prev = None and t = "node_text n"
        and original_text = "node_text n", OF suffix_order.refl refl]
    unfolding extract_markdown_links_def by blast
  with r show ?case by simp
qed

lemma split_nodes_delimiter_error:
  "split_nodes_delimiter old_nodes delimiter tt = Inl e \<Longrightarrow> delimiter \<noteq> [] \<Longrightarrow>
   e = ValueError ''invalid markdown, formatted section not closed''"
  by (induction old_nodes) (auto simp: Let_def split: if_splits sum.splits)

lemma text_to_textnodes_error:
  "text_to_textnodes text = Inl e \<Longrightarrow>
   e = ValueError ''invalid markdown, formatted section not closed''"
proof -
  assume a: "text_to_textnodes text = Inl e"
  have i: "split_nodes_image ns \<noteq> Inl e'" for ns e'
    using split_nodes_image_succeeds [of ns] by auto
  have l: "split_nodes_link ns \<noteq> Inl e'" for ns e'
    using split_nodes_link_succeeds [of ns] by auto
  from a show ?thesis
    unfolding text_to_textnodes_def
    by (auto simp del: split_nodes_delimiter.simps split: sum.splits
        dest!: split_nodes_delimiter_error simp: i l)
qed

section \<open>Images and links: where the passes split\<close>

lemma takeWhile_dropWhile_stop:
  "\<forall>x \<in> set xs. P x \<Longrightarrow> \<not> P y \<Longrightarrow>
   takeWhile P (xs @ y # ys) = xs \<and> dropWhile P (xs @ y # ys) = y # ys"
  by (induction xs) auto

lemma match_link_body_groups:
  "match_link_body s = Some (g1, g2, r) \<Longrightarrow> well_formed_pair (g1, g2)"
  by (cases s)
     (auto simp: match_link_body_def Let_def well_formed_pair_def
           split: if_splits list.splits dest: set_takeWhileD)

lemma match_link_body_literal:
  assumes "well_formed_pair (g1, g2)"
  shows "match_link_body (''['' @ g1 @ ''](''  @ g2 @ '')'' @ r) = Some (g1, g2, r)"
proof -
  let ?P = "\<lambda>x. x \<noteq> CHR ''['' \<and> x \<noteq> CHR '']''"
  let ?Q = "\<lambda>x. x \<noteq> CHR ''('' \<and> x \<noteq> CHR '')''"
  from assms have p: "\<forall>x \<in> set g1. ?P x" and q: "\<forall>x \<in> set g2. ?Q x"
    by (auto simp: well_formed_pair_def)
  have a: "takeWhile ?P (g1 @ CHR '']'' # CHR ''('' # g2 @ CHR '')'' # r) = g1"
    and b: "dropWhile ?P (g1 @ CHR '']'' # CHR ''('' # g2 @ CHR '')'' # r)
              = CHR '']'' # CHR ''('' # g2 @ CHR '')'' # r"
    using takeWhile_dropWhile_stop [OF p, of "CHR '']''"] by simp_all
  have c: "takeWhile ?Q (g2 @ CHR '')'' # r) = g2"
    and d: "dropWhile ?Q (g2 @ CHR '')'' # r) = CHR '')'' # r"
    using takeWhile_dropWhile_stop [OF q, of "CHR '')''"] by simp_all
  show ?thesis
    by (simp add: match_link_body_def Let_def a b c d)
qed

lemma prefix_link_literal_match:
  assumes "well_formed_pair lnk" and "prefix (link_literal lnk) s"
  shows "match_link_body s \<noteq> None"
proof -
  from assms(2) obtain r where "s = link_literal lnk @ r" by (auto simp: prefix_def)
  then have "s = ''['' @ fst lnk @ ''](''  @ snd lnk @ '')'' @ r"
    by (simp add: link_literal_def)
  with match_link_body_literal [of "fst lnk" "snd lnk" r] assms(1) show ?thesis by simp
qed

lemma match_image_groups:
  "match_image s = Some (g1, g2, r) \<Longrightarrow> well_formed_pair (g1, g2)"
  by (cases s) (auto simp: match_image_def split: if_splits dest: match_link_body_groups)

lemma match_image_literal:
  assumes "well_formed_pair (g1, g2)"
  shows "match_image (''!['' @ g1 @ ''](''  @ g2 @ '')'' @ r) = Some (g1, g2, r)"
  using match_link_body_literal [OF assms, of r] by (simp add: match_image_def)

lemma prefix_image_literal_match:
  assumes "well_formed_pair img" and "prefix (image_literal img) s"
  shows "match_image s \<noteq> None"
proof -
  from assms(2) obtain r where "s = image_literal img @ r" by (auto simp: prefix_def)
  then have "s = ''!['' @ fst img @ ''](''  @ snd img @ '')'' @ r"
    by (simp add: image_literal_def)
  with match_image_literal [of "fst img" "snd img" r] assms(1) show ?thesis by simp
qed

lemma match_image_append:
  assumes "match_image u = Some (g1, g2, r)"
  shows "match_image (u @ v) = Some (g1, g2, r @ v)"
proof -
  from match_image_Some [OF assms] have "u @ v = ''!['' @ g1 @ ''](''  @ g2 @ '')'' @ (r @ v)"
    by simp
  with match_image_literal [OF match_image_groups [OF assms], of "r @ v"] show ?thesis
    by simp
qed

lemma match_image_Nil: "match_image [] = None"
  by (simp add: match_image_def)

lemma no_image_iff:
  "extract_markdown_images s = [] \<longleftrightarrow> (\<forall>u. suffix u s \<longrightarrow> match_image u = None)"
proof (induction s)
  case Nil
  show ?case by (simp add: match_image_Nil)
next
  case (Cons c cs)
  have "extract_markdown_images (c # cs) = []
          \<longleftrightarrow> match_image (c # cs) = None \<and> extract_markdown_images cs = []"
    by (auto split: option.splits)
  also have "\<dots> \<longleftrightarrow> match_image (c # cs) = None \<and> (\<forall>u. suffix u cs \<longrightarrow> match_image u = None)"
    using Cons.IH by simp
  also have "\<dots> \<longleftrightarrow> (\<forall>u. suffix u (c # cs) \<longrightarrow> match_image u = None)"
    by (auto simp: suffix_Cons)
  finally show ?case .
qed

lemma no_image_suffix:
  "extract_markdown_images s = [] \<Longrightarrow> suffix u s \<Longrightarrow> extract_markdown_images u = []"
  unfolding no_image_iff using suffix_order.trans by blast

lemma split_first_not_prefix:
  "\<not> prefix sep (c # cs) \<Longrightarrow> split_first sep cs = Some (a, b) \<Longrightarrow>
   split_first sep (c # cs) = Some (c # a, b)"
  by simp

lemma links_from_first_occurrence:
  assumes "links_from prev s = lnk # lnks"
    and "extract_markdown_images s = []"
    and "prev = Some CHR ''!'' \<longrightarrow> match_link_body s = None"
  shows "\<exists>a b. split_first (link_literal lnk) s = Some (a, b)
               \<and> lnks = links_from (Some CHR '')'') b
               \<and> (a \<noteq> [] \<longrightarrow> last a \<noteq> CHR ''!'')
               \<and> (a = [] \<longrightarrow> prev \<noteq> Some CHR ''!'')
               \<and> well_formed_pair lnk"
  using assms
proof (induction s arbitrary: prev)
  case Nil
  then show ?case by simp
next
  case (Cons c cs)
  show ?case
  proof (cases "prev \<noteq> Some CHR ''!'' \<and> match_link_body (c # cs) \<noteq> None")
    case True
    then obtain g1 g2 r where m: "match_link_body (c # cs) = Some (g1, g2, r)" by auto
    with True Cons.prems(1) have l: "lnk = (g1, g2)"
      and r: "lnks = links_from (Some CHR '')'') r" by simp_all
    from match_link_body_Some [OF m] l have e: "c # cs = link_literal lnk @ r"
      by (simp add: link_literal_def)
    then have "prefix (link_literal lnk) (c # cs)" by (metis prefixI)
    moreover from e have "drop (length (link_literal lnk)) (c # cs) = r"
      by (metis append_eq_conv_conj)
    ultimately have "split_first (link_literal lnk) (c # cs) = Some ([], r)" by simp
    with r True l match_link_body_groups [OF m] show ?thesis by simp
  next
    case False
    then have none: "match_link_body (c # cs) = None"
      using Cons.prems(3) by blast
    with Cons.prems(1) have l: "links_from (Some c) cs = lnk # lnks"
      by (auto split: if_splits)
    from Cons.prems(2) have ni: "extract_markdown_images cs = []"
      by (rule no_image_suffix) (simp add: suffix_Cons)
    have bang: "Some c = Some CHR ''!'' \<longrightarrow> match_link_body cs = None"
    proof
      assume "Some c = Some CHR ''!''"
      then have "match_image (c # cs) = match_link_body cs" by (simp add: match_image_def)
      moreover from Cons.prems(2) have "match_image (c # cs) = None"
        unfolding no_image_iff by blast
      ultimately show "match_link_body cs = None" by simp
    qed
    from Cons.IH [OF l ni bang] obtain a b
      where sp: "split_first (link_literal lnk) cs = Some (a, b)"
        and r: "lnks = links_from (Some CHR '')'') b"
        and la: "a \<noteq> [] \<longrightarrow> last a \<noteq> CHR ''!''"
        and lb: "a = [] \<longrightarrow> Some c \<noteq> Some CHR ''!''"
        and wf: "well_formed_pair lnk" by blast
    have "\<not> prefix (link_literal lnk) (c # cs)"
      using prefix_link_literal_match [OF wf] none by blast
    from split_first_not_prefix [OF this sp]
    have "split_first (link_literal lnk) (c # cs) = Some (c # a, b)" .
    moreover from la lb have "last (c # a) \<noteq> CHR ''!''" by (cases a) auto
    ultimately show ?thesis using r wf by simp
  qed
qed

lemma extract_markdown_images_first_occurrence:
  assumes "extract_markdown_images s = img # imgs"
  shows "\<exists>a b. split_first (image_literal img) s = Some (a, b)
               \<and> imgs = extract_markdown_images b
               \<and> extract_markdown_images a = []
               \<and> well_formed_pair img"
  using assms
proof (induction s)
  case Nil
  then show ?case by simp
next
  case (Cons c cs)
  show ?case
  proof (cases "match_image (c # cs)")
    case (Some m)
    obtain g1 g2 r where m: "match_image (c # cs) = Some (g1, g2, r)"
      using Some by (cases m) auto
    with Cons.prems have l: "img = (g1, g2)" and r: "imgs = extract_markdown_images r"
      by simp_all
    from match_image_Some [OF m] l have e: "c # cs = image_literal img @ r"
      by (simp add: image_literal_def)
    then have "prefix (image_literal img) (c # cs)" by (metis prefixI)
    moreover from e have "drop (length (image_literal img)) (c # cs) = r"
      by (metis append_eq_conv_conj)
    ultimately have "split_first (image_literal img) (c # cs) = Some ([], r)" by simp
    with r l match_image_groups [OF m] show ?thesis by simp
  next
    case None
    with Cons.prems have "extract_markdown_images cs = img # imgs" by simp
    from Cons.IH [OF this] obtain a b
      where sp: "split_first (image_literal img) cs = Some (a, b)"
        and r: "imgs = extract_markdown_images b"
        and na: "extract_markdown_images a = []"
        and wf: "well_formed_pair img" by blast
    have "\<not> prefix (image_literal img) (c # cs)"
      using prefix_image_literal_match [OF wf] None by blast
    from split_first_not_prefix [OF this sp]
    have s: "split_first (image_literal img) (c # cs) = Some (c # a, b)" .
    have "match_image (c # a) = None"
    proof (rule ccontr)
      assume "match_image (c # a) \<noteq> None"
      then obtain g1 g2 r' where "match_image (c # a) = Some (g1, g2, r')" by auto
      from match_image_append [OF this, of "image_literal img @ b"]
      have "match_image ((c # a) @ image_literal img @ b) \<noteq> None" by simp
      moreover from split_first_Some [OF sp] have "c # cs = (c # a) @ image_literal img @ b"
        by simp
      ultimately show False using None by simp
    qed
    with na have "extract_markdown_images (c # a) = []" by simp
    with s r wf show ?thesis by simp
  qed
qed

lemma source_text_TEXT: "source_text (TextNode s TEXT u) = s"
  by (simp add: source_text_def)

lemma link_after_bang_skip:
  "text_type a \<noteq> TEXT \<Longrightarrow> link_after_bang (a # xs) = link_after_bang xs"
  by (cases xs) simp_all

lemma link_loop_no_bang:
  assumes "links = links_from prev t"
    and "extract_markdown_images t = []"
    and "prev = Some CHR ''!'' \<longrightarrow> match_link_body t = None"
  shows "\<exists>out. link_loop links t = Inr out
               \<and> concat (map source_text out) = t
               \<and> \<not> link_after_bang out"
  using assms
proof (induction links arbitrary: t prev)
  case Nil
  show ?case by (simp add: source_text_TEXT)
next
  case (Cons lnk lnks)
  from links_from_first_occurrence [OF Cons.prems(1) [symmetric] Cons.prems(2,3)]
  obtain a b where sp: "split_first (link_literal lnk) t = Some (a, b)"
    and r: "lnks = links_from (Some CHR '')'') b"
    and la: "a \<noteq> [] \<longrightarrow> last a \<noteq> CHR ''!''" by blast
  from split_first_Some [OF sp] have t: "t = a @ link_literal lnk @ b" .
  then have "suffix b t" by (metis suffixI append_assoc)
  with Cons.prems(2) have nb: "extract_markdown_images b = []" by (rule no_image_suffix)
  from Cons.IH [OF r nb] obtain out'
    where o: "link_loop lnks b = Inr out'"
      and so: "concat (map source_text out') = b"
      and nl: "\<not> link_after_bang out'" by auto
  let ?L = "TextNode (fst lnk) LINK (Some (snd lnk))"
  have sl: "source_text ?L = link_literal lnk"
    by (simp add: source_text_def link_literal_def)
  have bl: "\<not> link_after_bang (?L # out')"
    using nl by (simp add: link_after_bang_skip)
  show ?case
  proof (cases "a = []")
    case True
    with sp o so sl t bl show ?thesis by simp
  next
    case False
    with la have "\<not> link_after_bang (TextNode a TEXT None # ?L # out')"
      using bl by simp
    with False sp o so sl t show ?thesis by (simp add: source_text_TEXT)
  qed
qed

lemma image_loop_no_image:
  assumes "images = extract_markdown_images t"
  shows "\<exists>out. image_loop images t = Inr out
               \<and> concat (map source_text out) = t
               \<and> (\<forall>n \<in> set out. text_type n = TEXT
                     \<longrightarrow> extract_markdown_images (node_text n) = [])"
  using assms
proof (induction images arbitrary: t)
  case Nil
  then show ?case by (simp add: source_text_TEXT)
next
  case (Cons img imgs)
  from extract_markdown_images_first_occurrence [OF Cons.prems [symmetric]]
  obtain a b where sp: "split_first (image_literal img) t = Some (a, b)"
    and r: "imgs = extract_markdown_images b"
    and na: "extract_markdown_images a = []" by blast
  from split_first_Some [OF sp] have t: "t = a @ image_literal img @ b" .
  from Cons.IH [OF r] obtain out'
    where o: "image_loop imgs b = Inr out'"
      and so: "concat (map source_text out') = b"
      and nl: "\<forall>n \<in> set out'. text_type n = TEXT
                 \<longrightarrow> extract_markdown_images (node_text n) = []" by auto
  have sl: "source_text (TextNode (fst img) IMAGE (Some (snd img))) = image_literal img"
    by (simp add: source_text_def image_literal_def)
  from sp o so sl t nl na show ?case
    by (auto simp: source_text_TEXT)
qed

lemma source_text_of_TEXT: "text_type n = TEXT \<Longrightarrow> source_text n = node_text n"
  by (simp add: source_text_def)

lemma split_nodes_image_no_image:
  "\<exists>mid. split_nodes_image old_nodes = Inr mid
         \<and> concat (map source_text mid) = concat (map source_text old_nodes)
         \<and> (\<forall>n \<in> set mid. text_type n = TEXT
               \<longrightarrow> extract_markdown_images (node_text n) = [])"
proof (induction old_nodes)
  case Nil
  show ?case by simp
next
  case (Cons n ns)
  then obtain r where r: "split_nodes_image ns = Inr r"
    and sr: "concat (map source_text r) = concat (map source_text ns)"
    and nr: "\<forall>n \<in> set r. text_type n = TEXT \<longrightarrow> extract_markdown_images (node_text n) = []"
    by blast
  show ?case
  proof (cases "text_type n \<noteq> TEXT \<or> extract_markdown_images (node_text n) = []")
    case True
    with r sr nr show ?thesis by auto
  next
    case False
    from image_loop_no_image [OF refl, of "node_text n"] obtain l
      where l: "image_loop (extract_markdown_images (node_text n)) (node_text n) = Inr l"
        and sl: "concat (map source_text l) = node_text n"
        and nl: "\<forall>n \<in> set l. text_type n = TEXT
                   \<longrightarrow> extract_markdown_images (node_text n) = []" by blast
    from False have "source_text n = node_text n" by (simp add: source_text_of_TEXT)
    with False r sr nr l sl nl show ?thesis by auto
  qed
qed

lemma split_nodes_link_no_bang:
  assumes "\<forall>n \<in> set mid. text_type n = TEXT \<longrightarrow> extract_markdown_images (node_text n) = []"
  shows "\<exists>chunks. split_nodes_link mid = Inr (concat chunks)
                 \<and> list_all2 link_chunk_ok mid chunks"
  using assms
proof (induction mid)
  case Nil
  show ?case by simp
next
  case (Cons n ns)
  then obtain cs where r: "split_nodes_link ns = Inr (concat cs)"
    and ok: "list_all2 link_chunk_ok ns cs" by auto
  show ?case
  proof (cases "text_type n \<noteq> TEXT \<or> extract_markdown_links (node_text n) = []")
    case True
    then have "link_chunk_ok n [n]"
      by (auto simp: link_chunk_ok_def source_text_of_TEXT)
    with ok have "list_all2 link_chunk_ok (n # ns) ([n] # cs)" by simp
    moreover from True r have "split_nodes_link (n # ns) = Inr (concat ([n] # cs))" by auto
    ultimately show ?thesis by blast
  next
    case False
    with Cons.prems have ni: "extract_markdown_images (node_text n) = []" by simp
    have "extract_markdown_links (node_text n) = links_from None (node_text n)"
      by (simp add: extract_markdown_links_def)
    from link_loop_no_bang [OF this ni] obtain out
      where l: "link_loop (extract_markdown_links (node_text n)) (node_text n) = Inr out"
        and so: "concat (map source_text out) = node_text n"
        and nb: "\<not> link_after_bang out" by auto
    from False so nb have "link_chunk_ok n out" by (simp add: link_chunk_ok_def)
    with ok have "list_all2 link_chunk_ok (n # ns) (out # cs)" by simp
    moreover from False r l have "split_nodes_link (n # ns) = Inr (concat (out # cs))" by simp
    ultimately show ?thesis by blast
  qed
qed

lemma links_from_not_after_bang:
  "links_from prev s = lnk # lnks \<Longrightarrow>
   \<exists>pre post. s = pre @ link_literal lnk @ post
             \<and> (if pre = [] then prev \<noteq> Some CHR ''!'' else last pre \<noteq> CHR ''!'')
             \<and> lnks = links_from (Some CHR '')'') post"
proof (induction s arbitrary: prev)
  case Nil
  then show ?case by simp
next
  case (Cons c cs)
  show ?case
  proof (cases "prev \<noteq> Some CHR ''!'' \<and> match_link_body (c # cs) \<noteq> None")
    case True
    then obtain g1 g2 r where m: "match_link_body (c # cs) = Some (g1, g2, r)" by auto
    with True Cons.prems have l: "lnk = (g1, g2)"
      and r: "lnks = links_from (Some CHR '')'') r" by simp_all
    from match_link_body_Some [OF m] l have "c # cs = [] @ link_literal lnk @ r"
      by (simp add: link_literal_def)
    with r True show ?thesis by (metis (full_types))
  next
    case False
    with Cons.prems have l: "links_from (Some c) cs = lnk # lnks"
      by (auto split: if_splits option.splits)
    from Cons.IH [OF l] obtain pre post
      where e: "cs = pre @ link_literal lnk @ post"
        and b: "if pre = [] then Some c \<noteq> Some CHR ''!'' else last pre \<noteq> CHR ''!''"
        and r: "lnks = links_from (Some CHR '')'') post" by blast
    from e have "c # cs = (c # pre) @ link_literal lnk @ post" by simp
    moreover from b have "last (c # pre) \<noteq> CHR ''!''" by (cases pre) auto
    ultimately have "c # cs = (c # pre) @ link_literal lnk @ post
        \<and> (if c # pre = [] then prev \<noteq> Some CHR ''!'' else last (c # pre) \<noteq> CHR ''!'')
        \<and> lnks = links_from (Some CHR '')'') post"
      using r by simp
    then show ?thesis by blast
  qed
qed

text \<open>
  The link pass relies on the image pass having run: on a Text span that still holds
  an image it splits at the first occurrence of the link's literal, which can lie
  inside the image.  The tokenizer runs the image pass first and tokenizes the same
  text correctly.
\<close>

lemma split_nodes_link_before_image_pass:
  "split_nodes_link [TextNode ''![a](b) [a](b)'' TEXT None]
     = Inr [TextNode ''!'' TEXT None, TextNode ''a'' LINK (Some ''b''),
            TextNode '' [a](b)'' TEXT None]
   \<and> text_to_textnodes ''![a](b) [a](b)''
     = Inr [TextNode ''a'' IMAGE (Some ''b''), TextNode '' '' TEXT None,
            TextNode ''a'' LINK (Some ''b'')]"
  by code_simp

section \<open>The claims\<close>

text \<open>
  C1 (fails on the code).  The claim: every block that \<open>markdown_to_blocks\<close> returns is
  non-empty, and whitespace-only fragments are discarded.  The source tests a fragment
  for emptiness first and strips it afterwards, so a fragment of white space only is
  kept as an empty block: the document \<open>"a\n\n\n"\<close> yields the blocks \<open>"a"\<close> and \<open>""\<close>.
\<close>

theorem markdown_to_blocks_whitespace_fragment:
  "markdown_to_blocks [CHR ''a'', NL, NL, NL] = [''a'', []]"
  by code_simp

text \<open>
  C2.  When the delimiter is not empty and every Text span of the input holds it an even
  number of times, the delimiter pass succeeds; every Text span is replaced, in place,
  by the spans of its sections (empty sections dropped, even index Text, odd index the
  target type) and every other span stays where it is.  The sections are the text split
  at every occurrence of the delimiter: joined by the delimiter they give the text
  back, there is one more of them than occurrences, and none holds the delimiter.  No
  span made from a section is empty.
\<close>

theorem split_nodes_delimiter_even:
  assumes "delimiter \<noteq> []"
    and "\<forall>n \<in> set old_nodes.
           text_type n = TEXT \<longrightarrow> even (delimiter_count delimiter (node_text n))"
  shows "split_nodes_delimiter old_nodes delimiter tt =
           Inr (concat (map (\<lambda>n. if text_type n \<noteq> TEXT then [n]
                                  else spans_of_sections tt
                                         (split_sections delimiter (node_text n)))
                            old_nodes))
         \<and> (\<forall>n \<in> set old_nodes.
              join delimiter (split_sections delimiter (node_text n)) = node_text n
              \<and> length (split_sections delimiter (node_text n))
                  = delimiter_count delimiter (node_text n) + 1
              \<and> (\<forall>sec \<in> set (split_sections delimiter (node_text n)).
                    \<not> sublist delimiter sec)
              \<and> (\<forall>m \<in> set (spans_of_sections tt (split_sections delimiter (node_text n))).
                    node_text m \<noteq> []))"
proof (intro conjI ballI)
  show "split_nodes_delimiter old_nodes delimiter tt =
           Inr (concat (map (\<lambda>n. if text_type n \<noteq> TEXT then [n]
                                  else spans_of_sections tt
                                         (split_sections delimiter (node_text n)))
                            old_nodes))"
    using assms by (rule split_nodes_delimiter_even_aux)
next
  fix n
  show "join delimiter (split_sections delimiter (node_text n)) = node_text n"
    by (rule join_split_sections)
  show "length (split_sections delimiter (node_text n))
          = delimiter_count delimiter (node_text n) + 1"
    using assms(1) by (rule length_split_sections)
next
  fix n sec
  assume "sec \<in> set (split_sections delimiter (node_text n))"
  with assms(1) show "\<not> sublist delimiter sec"
    by (rule split_sections_no_delimiter)
next
  fix n m
  assume "m \<in> set (spans_of_sections tt (split_sections delimiter (node_text n)))"
  then have "m \<in> set (delimiter_spans 0 (split_sections delimiter (node_text n)) tt)"
    by (simp add: delimiter_spans_eq)
  then show "node_text m \<noteq> []"
    by (rule delimiter_spans_nonempty)
qed

theorem split_nodes_delimiter_even_witness:
  "split_nodes_delimiter
     [TextNode ''a**b****c**'' TEXT None, TextNode ''**'' CODE None] ''**'' BOLD
   = Inr [TextNode ''a'' TEXT None, TextNode ''b'' BOLD None, TextNode ''c'' BOLD None,
          TextNode ''**'' CODE None]"
proof -
  have ne: "''**'' \<noteq> []" by simp
  have cnt: "delimiter_count ''**'' ''a**b****c**'' = 4" by code_simp
  have ev: "\<forall>n \<in> set [TextNode ''a**b****c**'' TEXT None, TextNode ''**'' CODE None].
              text_type n = TEXT \<longrightarrow> even (delimiter_count ''**'' (node_text n))"
    by (simp add: cnt)
  have secs: "split_sections ''**'' ''a**b****c**'' = [''a'', ''b'', [], ''c'', []]"
    by code_simp
  have sp: "spans_of_sections BOLD [''a'', ''b'', [], ''c'', []]
              = [TextNode ''a'' TEXT None, TextNode ''b'' BOLD None, TextNode ''c'' BOLD None]"
    by code_simp
  from split_nodes_delimiter_even [OF ne ev, of BOLD, THEN conjunct1] show ?thesis
    by (simp add: secs sp)
qed

text \<open>
  C3 (as stated, false at the empty string).  The claim: a text with none of the inline
  markers tokenizes to exactly one Text span equal to the text.  The empty string has no
  marker, and the bold pass drops its one empty section: the result has no span.
\<close>

theorem text_to_textnodes_empty_counterexample:
  "no_inline_markers [] \<and> text_to_textnodes [] \<noteq> Inr [TextNode [] TEXT None]"
  by (simp add: no_inline_markers_def extract_markdown_links_def text_to_textnodes_def
      split_sections.simps)

text \<open>
  C3 (amended).  A non-empty text with none of the inline markers tokenizes to exactly
  one Text span equal to the text; the empty text tokenizes to no span at all.
\<close>

theorem text_to_textnodes_no_markers:
  "(text \<noteq> [] \<and> no_inline_markers text
      \<longrightarrow> text_to_textnodes text = Inr [TextNode text TEXT None])
   \<and> text_to_textnodes [] = Inr []"
proof (intro conjI impI)
  assume a: "text \<noteq> [] \<and> no_inline_markers text"
  then have b: "split_sections ''**'' text = [text]"
    and i: "split_sections ''_'' text = [text]"
    and c: "split_sections ''`'' text = [text]"
    and im: "extract_markdown_images text = []"
    and li: "extract_markdown_links text = []"
    by (simp_all add: no_inline_markers_def split_sections_None split_first_None
        split_first_char_None)
  from a show "text_to_textnodes text = Inr [TextNode text TEXT None]"
    by (simp add: text_to_textnodes_def b i c im li)
next
  show "text_to_textnodes [] = Inr []"
    by (simp add: text_to_textnodes_def split_sections.simps)
qed

theorem text_to_textnodes_no_markers_witness:
  "''plain text'' \<noteq> [] \<and> no_inline_markers ''plain text''
   \<and> text_to_textnodes ''plain text'' = Inr [TextNode ''plain text'' TEXT None]"
proof -
  have h: "''plain text'' \<noteq> [] \<and> no_inline_markers ''plain text''"
    by code_simp
  from text_to_textnodes_no_markers [of "''plain text''"] h show ?thesis
    by simp
qed

text \<open>
  C4 (as stated, false).  The claim: the failure names the unclosed delimiter, and
  tokenizing \<open>"**bold"\<close> raises \<open>UnclosedDelimiter("**")\<close>.  The source raises a
  \<open>ValueError\<close> with one fixed message, in which the delimiter does not occur.
\<close>

theorem unclosed_delimiter_counterexample:
  "text_to_textnodes ''**bold''
     = Inl (ValueError ''invalid markdown, formatted section not closed'')
   \<and> \<not> sublist ''**''
         (error_message (ValueError ''invalid markdown, formatted section not closed''))"
  by code_simp

text \<open>
  C4 (amended).  When the delimiter is not empty and some Text span of the input holds
  it an odd number of times, the delimiter pass fails with the \<open>ValueError\<close> whose
  message is "invalid markdown, formatted section not closed", the same for every
  delimiter; in particular tokenizing \<open>"**bold"\<close> fails with it.
\<close>

theorem split_nodes_delimiter_odd:
  "(delimiter \<noteq> [] \<and> n \<in> set old_nodes \<and> text_type n = TEXT
      \<and> odd (delimiter_count delimiter (node_text n))
      \<longrightarrow> split_nodes_delimiter old_nodes delimiter tt
            = Inl (ValueError ''invalid markdown, formatted section not closed''))
   \<and> text_to_textnodes ''**bold''
       = Inl (ValueError ''invalid markdown, formatted section not closed'')"
proof (intro conjI impI)
  assume "delimiter \<noteq> [] \<and> n \<in> set old_nodes \<and> text_type n = TEXT
      \<and> odd (delimiter_count delimiter (node_text n))"
  then show "split_nodes_delimiter old_nodes delimiter tt
            = Inl (ValueError ''invalid markdown, formatted section not closed'')"
    by (intro split_nodes_delimiter_odd_aux [of delimiter n]) simp_all
next
  show "text_to_textnodes ''**bold''
       = Inl (ValueError ''invalid markdown, formatted section not closed'')"
    by code_simp
qed

theorem split_nodes_delimiter_odd_witness:
  "odd (delimiter_count ''_'' ''snake_case'')
   \<and> split_nodes_delimiter
       [TextNode ''b'' BOLD None, TextNode ''snake_case'' TEXT None] ''_'' ITALIC
     = Inl (ValueError ''invalid markdown, formatted section not closed'')"
proof -
  have cnt: "delimiter_count ''_'' ''snake_case'' = 1" by code_simp
  from split_nodes_delimiter_odd
         [of "''_''" "TextNode ''snake_case'' TEXT None"
             "[TextNode ''b'' BOLD None, TextNode ''snake_case'' TEXT None]" ITALIC]
  show ?thesis by (simp add: cnt)
qed

text \<open>
  C10.  Converting the empty document succeeds: the result is the root \<open>div\<close> with no
  children, whatever the conversion of spans to leaves is.
\<close>

theorem markdown_to_html_node_empty:
  "markdown_to_html_node to_html [] = Inr (ParentNode ''div'' [])"
  by (simp add: markdown_to_html_node_def markdown_to_blocks_def split_sections.simps)

text \<open>
  C5.  Classification returns a type for every block and follows the precedence
  Heading, Code, Quote, UnorderedList, OrderedList, Paragraph: the type is that of the
  first rule that holds, and Paragraph when none does.  A block whose every line starts
  with \<open>>\<close> is a Quote, whatever else holds of it.
\<close>

theorem block_to_block_type_precedence_quote:
  "block_to_block_type block =
     (if is_heading block then HEADING
      else if is_code_fence block then CODE_BLOCK
      else if is_quote block then QUOTE
      else if is_unordered block then UNORDERED_LIST
      else if is_ordered block then ORDERED_LIST
      else PARAGRAPH)
   \<and> (is_quote block \<longrightarrow> block_to_block_type block = QUOTE)"
  using block_to_block_type_precedence [of block] is_quote_QUOTE [of block] by blast

theorem block_to_block_type_precedence_quote_witness:
  "is_quote (''># 1. x'' @ [NL] @ ''>- y'')
   \<and> block_to_block_type (''># 1. x'' @ [NL] @ ''>- y'') = QUOTE"
proof -
  have h: "is_quote (''># 1. x'' @ [NL] @ ''>- y'')" by code_simp
  from block_to_block_type_precedence_quote [of "''># 1. x'' @ [NL] @ ''>- y''"] h
  show ?thesis by blast
qed

text \<open>
  C6.  A block is an OrderedList exactly when the rules for Heading, Code, Quote and
  UnorderedList fail and every line starts with its own number, counted from 1, and
  \<open>". "\<close>.  When those four rules fail and some line deviates, the block is a
  Paragraph; the one-line block \<open>"2. item"\<close> is.
\<close>

theorem block_to_block_type_ordered_list:
  "(block_to_block_type block = ORDERED_LIST \<longleftrightarrow>
      \<not> is_heading block \<and> \<not> is_code_fence block \<and> \<not> is_quote block
      \<and> \<not> is_unordered block \<and> is_ordered block)
   \<and> (\<not> is_heading block \<and> \<not> is_code_fence block \<and> \<not> is_quote block
        \<and> \<not> is_unordered block \<and> \<not> is_ordered block
        \<longrightarrow> block_to_block_type block = PARAGRAPH)
   \<and> block_to_block_type ''2. item'' = PARAGRAPH"
proof (intro conjI)
  show "block_to_block_type block = ORDERED_LIST \<longleftrightarrow>
      \<not> is_heading block \<and> \<not> is_code_fence block \<and> \<not> is_quote block
      \<and> \<not> is_unordered block \<and> is_ordered block"
    by (simp add: block_to_block_type_precedence)
  show "\<not> is_heading block \<and> \<not> is_code_fence block \<and> \<not> is_quote block
        \<and> \<not> is_unordered block \<and> \<not> is_ordered block
        \<longrightarrow> block_to_block_type block = PARAGRAPH"
    by (simp add: block_to_block_type_precedence)
  show "block_to_block_type ''2. item'' = PARAGRAPH"
    by code_simp
qed

theorem block_to_block_type_ordered_list_witness:
  "is_ordered (''1. a'' @ [NL] @ ''2. b'')
   \<and> block_to_block_type (''1. a'' @ [NL] @ ''2. b'') = ORDERED_LIST
   \<and> \<not> is_ordered (''1. a'' @ [NL] @ ''3. b'')
   \<and> block_to_block_type (''1. a'' @ [NL] @ ''3. b'') = PARAGRAPH"
proof -
  have a: "\<not> is_heading (''1. a'' @ [NL] @ ''2. b'')"
    "\<not> is_code_fence (''1. a'' @ [NL] @ ''2. b'')"
    "\<not> is_quote (''1. a'' @ [NL] @ ''2. b'')"
    "\<not> is_unordered (''1. a'' @ [NL] @ ''2. b'')"
    "is_ordered (''1. a'' @ [NL] @ ''2. b'')"
    by code_simp+
  have b: "\<not> is_heading (''1. a'' @ [NL] @ ''3. b'')"
    "\<not> is_code_fence (''1. a'' @ [NL] @ ''3. b'')"
    "\<not> is_quote (''1. a'' @ [NL] @ ''3. b'')"
    "\<not> is_unordered (''1. a'' @ [NL] @ ''3. b'')"
    "\<not> is_ordered (''1. a'' @ [NL] @ ''3. b'')"
    by code_simp+
  from block_to_block_type_ordered_list [of "''1. a'' @ [NL] @ ''2. b''"]
       block_to_block_type_ordered_list [of "''1. a'' @ [NL] @ ''3. b''"] a b
  show ?thesis by blast
qed

text \<open>
  C7 (as stated, false).  The claim: exactly one leading \<open>>\<close> and one following space
  are stripped from every line.  The block \<open>">>a"\<close> is a Quote; the source strips both
  \<open>>\<close> and builds the blockquote over \<open>"a"\<close>, where stripping one would leave \<open>">a"\<close>.
\<close>

theorem quote_to_html_node_strip_counterexample:
  "block_to_block_type ''>>a'' = QUOTE
   \<and> quote_to_html_node (\<lambda>n. Inr (LeafNode [] (node_text n))) ''>>a''
       = Inr (ParentNode ''blockquote'' [LeafNode [] ''a''])
   \<and> text_to_children (\<lambda>n. Inr (LeafNode [] (node_text n)))
        (join [NL] (map spec_strip_quote_line (split_sections [NL] ''>>a'')))
       = Inr [LeafNode [] ''>a'']"
  by code_simp

text \<open>
  C7 (amended).  For every block classified as Quote, \<open>quote_to_html_node\<close> strips all
  the leading \<open>>\<close> characters and then all the leading white space from every line,
  rejoins the stripped lines with newline and builds a \<open>blockquote\<close> node over the
  tokenized rejoined text; an error of the tokenizer or of the conversion of a span is
  passed on.
\<close>

theorem quote_to_html_node_strip:
  assumes "block_to_block_type block = QUOTE"
  shows "quote_to_html_node to_html block =
    (case text_to_children to_html
            (join [NL] (map (\<lambda>line. dropWhile is_space
                                        (dropWhile (\<lambda>c. c = CHR ''>'') line))
                            (split_sections [NL] block))) of
       Inl e \<Rightarrow> Inl e
     | Inr children \<Rightarrow> Inr (ParentNode ''blockquote'' children))"
proof -
  from assms have "is_quote block" by (rule QUOTE_is_quote)
  then have "\<forall>line \<in> set (split_sections [NL] block). prefix ''>'' line"
    by (simp add: is_quote_def)
  then show ?thesis
    by (simp add: quote_to_html_node_def quote_lines_all)
qed

theorem quote_to_html_node_strip_witness:
  "block_to_block_type (''> a'' @ [NL] @ ''>>   b'') = QUOTE
   \<and> quote_to_html_node (\<lambda>n. Inr (LeafNode [] (node_text n))) (''> a'' @ [NL] @ ''>>   b'')
       = Inr (ParentNode ''blockquote'' [LeafNode [] (''a'' @ [NL] @ ''b'')])"
proof -
  have h: "block_to_block_type (''> a'' @ [NL] @ ''>>   b'') = QUOTE" by code_simp
  have r: "(case text_to_children (\<lambda>n. Inr (LeafNode [] (node_text n)))
            (join [NL] (map (\<lambda>line. dropWhile is_space
                                        (dropWhile (\<lambda>c. c = CHR ''>'') line))
                            (split_sections [NL] (''> a'' @ [NL] @ ''>>   b'')))) of
       Inl e \<Rightarrow> Inl e
     | Inr children \<Rightarrow> Inr (ParentNode ''blockquote'' children))
     = Inr (ParentNode ''blockquote'' [LeafNode [] (''a'' @ [NL] @ ''b'')])"
    by code_simp
  from quote_to_html_node_strip [OF h, of "\<lambda>n. Inr (LeafNode [] (node_text n))"] r h
  show ?thesis by simp
qed

text \<open>
  C8.  An image is never misread as a link, and a bare link never as an image, for
  every text.  The image pass followed by the link pass succeeds on every list of
  spans; the image pass keeps the text the spans stand for (an Image span takes its
  \<open>!\<close> along, so a bare link is no image) and leaves no image in a Text span; the link
  pass then replaces every Text span by spans standing for the same text in which no
  Link span directly follows a \<open>!\<close>.  The tokenizer is these two passes after the three
  delimiter passes.  The link pattern reports no occurrence that directly follows a
  \<open>!\<close>, in any text; the text of one image holds no link for it, and the text of one
  bare link holds no image.  Tokenizing \<open>"![alt](http://x) more"\<close> gives the image and
  the text \<open>" more"\<close>; tokenizing \<open>"[alt](http://x)"\<close> gives the link.
\<close>

theorem image_and_link_not_confused:
  "(\<exists>mid chunks. split_nodes_image old_nodes = Inr mid
        \<and> concat (map source_text mid) = concat (map source_text old_nodes)
        \<and> (\<forall>n \<in> set mid. text_type n = TEXT
              \<longrightarrow> extract_markdown_images (node_text n) = [])
        \<and> split_nodes_link mid = Inr (concat chunks)
        \<and> list_all2 link_chunk_ok mid chunks)
   \<and> (split_nodes_delimiter [TextNode text TEXT None] ''**'' BOLD = Inr n1
        \<and> split_nodes_delimiter n1 ''_'' ITALIC = Inr n2
        \<and> split_nodes_delimiter n2 ''`'' CODE = Inr n3
        \<longrightarrow> (\<exists>mid chunks. split_nodes_image n3 = Inr mid
                \<and> concat (map source_text mid) = concat (map source_text n3)
                \<and> text_to_textnodes text = Inr (concat chunks)
                \<and> list_all2 link_chunk_ok mid chunks))
   \<and> (links_from prev s = lnk # lnks
        \<longrightarrow> (\<exists>pre post. s = pre @ link_literal lnk @ post
               \<and> (if pre = [] then prev \<noteq> Some CHR ''!'' else last pre \<noteq> CHR ''!'')
               \<and> lnks = links_from (Some CHR '')'') post))
   \<and> (CHR ''['' \<notin> set alt \<and> CHR '']'' \<notin> set alt \<and> CHR ''('' \<notin> set u \<and> CHR '')'' \<notin> set u
        \<longrightarrow> extract_markdown_links (''!['' @ alt @ ''](''  @ u @ '')'') = []
            \<and> extract_markdown_images (''['' @ alt @ ''](''  @ u @ '')'') = [])
   \<and> text_to_textnodes ''![alt](http://x) more''
       = Inr [TextNode ''alt'' IMAGE (Some ''http://x''), TextNode '' more'' TEXT None]
   \<and> text_to_textnodes ''[alt](http://x)''
       = Inr [TextNode ''alt'' LINK (Some ''http://x'')]"
proof -
  have both: "\<exists>mid chunks. split_nodes_image ns = Inr mid
        \<and> concat (map source_text mid) = concat (map source_text ns)
        \<and> (\<forall>n \<in> set mid. text_type n = TEXT
              \<longrightarrow> extract_markdown_images (node_text n) = [])
        \<and> split_nodes_link mid = Inr (concat chunks)
        \<and> list_all2 link_chunk_ok mid chunks" for ns
  proof -
    from split_nodes_image_no_image [of ns] obtain mid
      where m: "split_nodes_image ns = Inr mid"
        "concat (map source_text mid) = concat (map source_text ns)"
        "\<forall>n \<in> set mid. text_type n = TEXT \<longrightarrow> extract_markdown_images (node_text n) = []"
      by blast
    from split_nodes_link_no_bang [OF m(3)] obtain chunks
      where "split_nodes_link mid = Inr (concat chunks)" "list_all2 link_chunk_ok mid chunks"
      by blast
    with m show ?thesis by blast
  qed
  have A: "\<exists>mid chunks. split_nodes_image old_nodes = Inr mid
        \<and> concat (map source_text mid) = concat (map source_text old_nodes)
        \<and> (\<forall>n \<in> set mid. text_type n = TEXT
              \<longrightarrow> extract_markdown_images (node_text n) = [])
        \<and> split_nodes_link mid = Inr (concat chunks)
        \<and> list_all2 link_chunk_ok mid chunks"
    by (rule both)
  have B: "split_nodes_delimiter [TextNode text TEXT None] ''**'' BOLD = Inr n1
        \<and> split_nodes_delimiter n1 ''_'' ITALIC = Inr n2
        \<and> split_nodes_delimiter n2 ''`'' CODE = Inr n3
        \<longrightarrow> (\<exists>mid chunks. split_nodes_image n3 = Inr mid
                \<and> concat (map source_text mid) = concat (map source_text n3)
                \<and> text_to_textnodes text = Inr (concat chunks)
                \<and> list_all2 link_chunk_ok mid chunks)"
  proof
    assume h: "split_nodes_delimiter [TextNode text TEXT None] ''**'' BOLD = Inr n1
        \<and> split_nodes_delimiter n1 ''_'' ITALIC = Inr n2
        \<and> split_nodes_delimiter n2 ''`'' CODE = Inr n3"
    from both [of n3] obtain mid chunks
      where m: "split_nodes_image n3 = Inr mid"
        "concat (map source_text mid) = concat (map source_text n3)"
        "split_nodes_link mid = Inr (concat chunks)" "list_all2 link_chunk_ok mid chunks"
      by blast
    from h m(1,3) have "text_to_textnodes text = Inr (concat chunks)"
      unfolding text_to_textnodes_def by (simp del: split_nodes_delimiter.simps)
    with m show "\<exists>mid chunks. split_nodes_image n3 = Inr mid
                \<and> concat (map source_text mid) = concat (map source_text n3)
                \<and> text_to_textnodes text = Inr (concat chunks)
                \<and> list_all2 link_chunk_ok mid chunks" by blast
  qed
  have F: "links_from prev s = lnk # lnks
        \<longrightarrow> (\<exists>pre post. s = pre @ link_literal lnk @ post
               \<and> (if pre = [] then prev \<noteq> Some CHR ''!'' else last pre \<noteq> CHR ''!'')
               \<and> lnks = links_from (Some CHR '')'') post)"
    using links_from_not_after_bang [of prev s lnk lnks] by blast
  have C: "CHR ''['' \<notin> set alt \<and> CHR '']'' \<notin> set alt \<and> CHR ''('' \<notin> set u \<and> CHR '')'' \<notin> set u
        \<longrightarrow> extract_markdown_links (''!['' @ alt @ ''](''  @ u @ '')'') = []
            \<and> extract_markdown_images (''['' @ alt @ ''](''  @ u @ '')'') = []"
    using image_not_link [of alt u] link_not_image [of alt u] by blast
  have D: "text_to_textnodes ''![alt](http://x) more''
       = Inr [TextNode ''alt'' IMAGE (Some ''http://x''), TextNode '' more'' TEXT None]"
    by code_simp
  have E: "text_to_textnodes ''[alt](http://x)''
       = Inr [TextNode ''alt'' LINK (Some ''http://x'')]"
    by code_simp
  from A B F C D E show ?thesis by (intro conjI)
qed

theorem image_and_link_not_confused_witness:
  "split_nodes_delimiter [TextNode ''![a](b) [a](b)'' TEXT None] ''**'' BOLD
     = Inr [TextNode ''![a](b) [a](b)'' TEXT None]
   \<and> split_nodes_delimiter [TextNode ''![a](b) [a](b)'' TEXT None] ''_'' ITALIC
     = Inr [TextNode ''![a](b) [a](b)'' TEXT None]
   \<and> split_nodes_delimiter [TextNode ''![a](b) [a](b)'' TEXT None] ''`'' CODE
     = Inr [TextNode ''![a](b) [a](b)'' TEXT None]
   \<and> (\<exists>mid chunks. split_nodes_image [TextNode ''![a](b) [a](b)'' TEXT None] = Inr mid
          \<and> concat (map source_text mid)
              = concat (map source_text [TextNode ''![a](b) [a](b)'' TEXT None])
          \<and> text_to_textnodes ''![a](b) [a](b)'' = Inr (concat chunks)
          \<and> list_all2 link_chunk_ok mid chunks)
   \<and> links_from None ''![a](b) [a](b)'' = [(''a'', ''b'')]
   \<and> (\<exists>pre post. ''![a](b) [a](b)'' = pre @ link_literal (''a'', ''b'') @ post
          \<and> (if pre = [] then None \<noteq> Some CHR ''!'' else last pre \<noteq> CHR ''!'')
          \<and> [] = links_from (Some CHR '')'') post)
   \<and> extract_markdown_links ''![alt](http://x)'' = []
   \<and> extract_markdown_images ''[alt](http://x)'' = []"
proof -
  let ?n = "[TextNode ''![a](b) [a](b)'' TEXT None]"
  have h: "split_nodes_delimiter ?n ''**'' BOLD = Inr ?n"
    "split_nodes_delimiter ?n ''_'' ITALIC = Inr ?n"
    "split_nodes_delimiter ?n ''`'' CODE = Inr ?n"
    by code_simp+
  have l: "links_from None ''![a](b) [a](b)'' = [(''a'', ''b'')]"
    by code_simp
  have w: "CHR ''['' \<notin> set ''alt'' \<and> CHR '']'' \<notin> set ''alt''
           \<and> CHR ''('' \<notin> set ''http://x'' \<and> CHR '')'' \<notin> set ''http://x''"
    by simp
  note t = image_and_link_not_confused
             [of _ "''![a](b) [a](b)''" ?n ?n ?n None "''![a](b) [a](b)''"
                 "(''a'', ''b'')" "[]" "''alt''" "''http://x''"]
  from t h have "\<exists>mid chunks. split_nodes_image ?n = Inr mid
          \<and> concat (map source_text mid) = concat (map source_text ?n)
          \<and> text_to_textnodes ''![a](b) [a](b)'' = Inr (concat chunks)
          \<and> list_all2 link_chunk_ok mid chunks" by blast
  moreover from t l have "\<exists>pre post. ''![a](b) [a](b)'' = pre @ link_literal (''a'', ''b'') @ post
          \<and> (if pre = [] then None \<noteq> Some CHR ''!'' else last pre \<noteq> CHR ''!'')
          \<and> [] = links_from (Some CHR '')'') post" by blast
  moreover from t w have "extract_markdown_links ''![alt](http://x)'' = []
     \<and> extract_markdown_images ''[alt](http://x)'' = []" by simp
  ultimately show ?thesis using h l by blast
qed

text \<open>
  C9.  The failure branches of the image pass and of the link pass are never taken: for
  every text the loop over the extracted pairs finds each literal and ends with a list
  of spans, both passes succeed on every list of spans, and the tokenizer never fails
  with either of their two errors.
\<close>

theorem image_link_errors_unreachable:
  "(\<exists>new_nodes. image_loop (extract_markdown_images text) text = Inr new_nodes)
   \<and> (\<exists>new_nodes. link_loop (extract_markdown_links text) text = Inr new_nodes)
   \<and> (\<exists>new_nodes. split_nodes_image old_nodes = Inr new_nodes)
   \<and> (\<exists>new_nodes. split_nodes_link old_nodes = Inr new_nodes)
   \<and> text_to_textnodes text \<noteq> Inl (ValueError ''invalid markdown, image section not closed'')
   \<and> text_to_textnodes text \<noteq> Inl (ValueError ''invalid markdown, link section not closed'')"
proof (intro conjI)
  show "\<exists>new_nodes. image_loop (extract_markdown_images text) text = Inr new_nodes"
    using image_loop_succeeds [OF suffix_order.refl refl] .
  show "\<exists>new_nodes. link_loop (extract_markdown_links text) text = Inr new_nodes"
    using link_loop_succeeds [where prev = None and t = "text"
        and original_text = "text", OF suffix_order.refl refl]
    unfolding extract_markdown_links_def .
  show "\<exists>new_nodes. split_nodes_image old_nodes = Inr new_nodes"
    by (rule split_nodes_image_succeeds)
  show "\<exists>new_nodes. split_nodes_link old_nodes = Inr new_nodes"
    by (rule split_nodes_link_succeeds)
  show "text_to_textnodes text
          \<noteq> Inl (ValueError ''invalid markdown, image section not closed'')"
    using text_to_textnodes_error [of "text"] by auto
  show "text_to_textnodes text
          \<noteq> Inl (ValueError ''invalid markdown, link section not closed'')"
    using text_to_textnodes_error [of "text"] by auto
qed

end
